theory Spec2Isabelle
  imports Main "HOL-Library.Word" "HOL-Library.AList"
begin

unbundle bit_operations_syntax

section \<open>Python values shared by both add-ons\<close>

text \<open>
  The two source files are Python modules that run inside Kodi's embedded interpreter.
  The model follows Python 3, and where the releases differ CPython 3.11: dictionaries
  keep insertion order, the character tables are those of Unicode 14.0, and \<open>int\<close> limits
  the length of the decimal strings it converts.

  A Python \<open>str\<close> is a sequence of Unicode code points; it is modelled as a list of
  code points, each a natural number.  A \<open>bytes\<close> object is a list of 8-bit words.
  \<open>ascii\<close> turns a literal of the source into such a string.
\<close>

type_synonym py_str = "nat list"
type_synonym byte = "8 word"

definition ascii :: "string \<Rightarrow> py_str" where
  "ascii s = map of_char s"

text \<open>
  Exceptions are values.  The built-in classes are identified by their class only; the
  exceptions the source raises itself carry their message.  \<open>FileNotFoundError\<close> is a
  subclass of \<open>OSError\<close>, of which \<open>IOError\<close> is an alias in Python 3.  \<open>SystemExit\<close>,
  \<open>KeyboardInterrupt\<close> and \<open>GeneratorExit\<close> derive from \<open>BaseException\<close> but not from
  \<open>Exception\<close>.  \<open>OutsideModel\<close> is not a Python exception: it marks an input on which
  the model makes no statement (a pickle opcode outside the modelled subset).
\<close>

datatype pyexc =
    FileNotFoundError
  | IOError py_str
  | EOFError
  | UnpicklingError
  | UnicodeDecodeError
  | KeyError
  | TypeError
  | AttributeError
  | ValueError
  | OverflowError
  | PicklingError
  | RuntimeError py_str
  | LocalizationError py_str
  | NoDataError py_str
  | SystemExit
  | KeyboardInterrupt
  | GeneratorExit
  | OutsideModel

fun isinstance_IOError :: "pyexc \<Rightarrow> bool" where
  "isinstance_IOError FileNotFoundError = True"
| "isinstance_IOError (IOError m) = True"
| "isinstance_IOError e = False"


text \<open>\<open>str(n)\<close> for an integer, as \<open>'{}'.format(n)\<close> renders it.\<close>

function str_nat :: "nat \<Rightarrow> py_str" where
  "str_nat n = (if n < 10 then [48 + n] else str_nat (n div 10) @ [48 + n mod 10])"
  by pat_completeness auto
termination
  by (relation "measure id") auto

declare str_nat.simps [simp del]

definition str_int :: "int \<Rightarrow> py_str" where
  "str_int i = (if i < 0 then 45 # str_nat (nat (- i)) else str_nat (nat i))"

section \<open>kodi_api.py: the JSON-RPC wrapper\<close>

text \<open>
  What \<open>json.loads\<close> returns.  A JSON object is a Python dictionary, kept as the list
  of its items.  A float is kept as its IEEE 754 bit pattern: the source only ever
  tests such a value for truth.
\<close>

datatype json =
    JNull
  | JBool bool
  | JInt int
  | JFloat "64 word"
  | JStr py_str
  | JList "json list"
  | JObj "(py_str \<times> json) list"

text \<open>
  Python's truth value of a decoded JSON value (\<open>bool(x)\<close>, and what \<open>not x\<close> negates):
  \<open>None\<close>, \<open>False\<close>, zero (for a float both zeros, whatever the sign bit), and the
  empty string, list and dictionary are false; everything else is true.
\<close>

fun truthy :: "json \<Rightarrow> bool" where
  "truthy JNull = False"
| "truthy (JBool b) = b"
| "truthy (JInt i) = (i \<noteq> 0)"
| "truthy (JFloat w) = (w AND 0x7FFFFFFFFFFFFFFF \<noteq> 0)"
| "truthy (JStr s) = (s \<noteq> [])"
| "truthy (JList xs) = (xs \<noteq> [])"
| "truthy (JObj kvs) = (kvs \<noteq> [])"

text \<open>
  The host side of \<open>xbmc.executeJSONRPC\<close> is a parameter \<open>rpc\<close>: it takes the request
  and the state of the Kodi library and gives the decoded reply and the new state.
  The wrapper's own state is the library together with the list of the requests it has
  handed to \<open>xbmc.executeJSONRPC\<close>, oldest first.  The two \<open>logger.debug\<close> lines write to
  Kodi's log only and are not part of the state.
\<close>

record 'h kodi =
  library :: 'h
  rpc_log :: "json list"

definition make_request :: "py_str \<Rightarrow> json option \<Rightarrow> json" where
  "make_request method params =
     JObj ([(ascii ''jsonrpc'', JStr (ascii ''2.0'')),
            (ascii ''method'', JStr method),
            (ascii ''id'', JStr (ascii ''1''))]
           @ (case params of None \<Rightarrow> [] | Some p \<Rightarrow> [(ascii ''params'', p)]))"

text \<open>\<open>obj[key]\<close> on a decoded JSON value: only a dictionary can be subscripted by a string.\<close>

fun subscript :: "json \<Rightarrow> py_str \<Rightarrow> pyexc + json" where
  "subscript (JObj kvs) key = (case map_of kvs key of None \<Rightarrow> Inl KeyError | Some v \<Rightarrow> Inr v)"
| "subscript v key = Inl TypeError"

definition send_json_rpc ::
  "(json \<Rightarrow> 'h \<Rightarrow> json \<times> 'h) \<Rightarrow> py_str \<Rightarrow> json option \<Rightarrow> 'h kodi \<Rightarrow> (pyexc + json) \<times> 'h kodi" where
  "send_json_rpc rpc method params st =
     (let request = make_request method params;
          (json_reply, lib') = rpc request (library st);
          st' = st\<lparr>library := lib', rpc_log := rpc_log st @ [request]\<rparr>
      in (subscript json_reply (ascii ''result''), st'))"

text \<open>\<open>result.get(key)\<close>: only a dictionary has the method; a missing key gives \<open>None\<close>.\<close>

fun dict_get :: "json \<Rightarrow> py_str \<Rightarrow> pyexc + json" where
  "dict_get (JObj kvs) key = (case map_of kvs key of None \<Rightarrow> Inr JNull | Some v \<Rightarrow> Inr v)"
| "dict_get v key = Inl AttributeError"

definition get_tvshows_params :: json where
  "get_tvshows_params =
     JObj [(ascii ''properties'', JList [JStr (ascii ''uniqueid'')]),
           (ascii ''sort'', JObj [(ascii ''order'', JStr (ascii ''ascending'')),
                                  (ascii ''method'', JStr (ascii ''label''))])]"

definition get_tvshows ::
  "(json \<Rightarrow> 'h \<Rightarrow> json \<times> 'h) \<Rightarrow> 'h kodi \<Rightarrow> (pyexc + json) \<times> 'h kodi" where
  "get_tvshows rpc st =
     (case send_json_rpc rpc (ascii ''VideoLibrary.GetTVShows'') (Some get_tvshows_params) st of
        (Inl e, st') \<Rightarrow> (Inl e, st')
      | (Inr result, st') \<Rightarrow>
          (case dict_get result (ascii ''tvshows'') of
             Inl e \<Rightarrow> (Inl e, st')
           | Inr v \<Rightarrow>
               if \<not> truthy v
               then (Inl (NoDataError (ascii ''Kodi medialibrary has no TV shows'')), st')
               else (subscript result (ascii ''tvshows''), st')))"

definition get_episodes_params :: "int \<Rightarrow> json" where
  "get_episodes_params tvshowid =
     JObj [(ascii ''tvshowid'', JInt tvshowid),
           (ascii ''properties'',
              JList [JStr (ascii ''season''), JStr (ascii ''episode''),
                     JStr (ascii ''playcount''), JStr (ascii ''tvshowid'')])]"

definition get_episodes ::
  "(json \<Rightarrow> 'h \<Rightarrow> json \<times> 'h) \<Rightarrow> int \<Rightarrow> 'h kodi \<Rightarrow> (pyexc + json) \<times> 'h kodi" where
  "get_episodes rpc tvshowid st =
     (case send_json_rpc rpc (ascii ''VideoLibrary.GetEpisodes'')
             (Some (get_episodes_params tvshowid)) st of
        (Inl e, st') \<Rightarrow> (Inl e, st')
      | (Inr result, st') \<Rightarrow>
          (case dict_get result (ascii ''episodes'') of
             Inl e \<Rightarrow> (Inl e, st')
           | Inr v \<Rightarrow>
               if \<not> truthy v
               then (Inl (NoDataError
                       (ascii ''TV show '' @ str_int tvshowid @ ascii '' has no episodes'')), st')
               else (subscript result (ascii ''episodes''), st')))"

definition get_episode_details_params :: "int \<Rightarrow> json" where
  "get_episode_details_params episode_id =
     JObj [(ascii ''episodeid'', JInt episode_id),
           (ascii ''properties'',
              JList [JStr (ascii ''playcount''), JStr (ascii ''tvshowid''),
                     JStr (ascii ''season''), JStr (ascii ''episode''),
                     JStr (ascii ''uniqueid'')])]"

definition get_episode_details ::
  "(json \<Rightarrow> 'h \<Rightarrow> json \<times> 'h) \<Rightarrow> int \<Rightarrow> 'h kodi \<Rightarrow> (pyexc + json) \<times> 'h kodi" where
  "get_episode_details rpc episode_id st =
     (case send_json_rpc rpc (ascii ''VideoLibrary.GetEpisodeDetails'')
             (Some (get_episode_details_params episode_id)) st of
        (Inl e, st') \<Rightarrow> (Inl e, st')
      | (Inr result, st') \<Rightarrow> (subscript result (ascii ''episodedetails''), st'))"

definition set_episode_details_params :: "int \<Rightarrow> int \<Rightarrow> json" where
  "set_episode_details_params episode_id playcount =
     JObj [(ascii ''episodeid'', JInt episode_id), (ascii ''playcount'', JInt playcount)]"

text \<open>\<open>int(bool(x))\<close>: 1 for a true value, 0 for a false one.\<close>

definition int_bool :: "json \<Rightarrow> int" where
  "int_bool x = (if truthy x then 1 else 0)"

definition set_episode_playcount ::
  "(json \<Rightarrow> 'h \<Rightarrow> json \<times> 'h) \<Rightarrow> int \<Rightarrow> int \<Rightarrow> 'h kodi \<Rightarrow> (pyexc + unit) \<times> 'h kodi" where
  "set_episode_playcount rpc episode_id playcount st =
     (case get_episode_details rpc episode_id st of
        (Inl e, st') \<Rightarrow> (Inl e, st')
      | (Inr details, st') \<Rightarrow>
          (case subscript details (ascii ''playcount'') of
             Inl e \<Rightarrow> (Inl e, st')
           | Inr original_playcount \<Rightarrow>
               if playcount \<noteq> int_bool original_playcount
               then (case send_json_rpc rpc (ascii ''VideoLibrary.SetEpisodeDetails'')
                            (Some (set_episode_details_params episode_id playcount)) st' of
                       (Inl e, st'') \<Rightarrow> (Inl e, st'')
                     | (Inr r, st'') \<Rightarrow> (Inr (), st''))
               else (Inr (), st')))"

text \<open>
  A host to run the wrapper on: whatever the request, it answers with one result that
  holds a TV show, no episodes and the details of an episode played three times, and it
  counts the requests it has served.
\<close>

definition demo_rpc :: "json \<Rightarrow> nat \<Rightarrow> json \<times> nat" where
  "demo_rpc request n =
     (JObj [(ascii ''result'',
             JObj [(ascii ''tvshows'', JList [JObj [(ascii ''tvshowid'', JInt 45)]]),
                   (ascii ''episodes'', JList []),
                   (ascii ''episodedetails'', JObj [(ascii ''playcount'', JInt 3)])])],
      Suc n)"

subsection \<open>Properties of the library queries\<close>

lemma send_json_rpc_log:
  "send_json_rpc rpc method params st = (r, st') \<Longrightarrow>
   rpc_log st' = rpc_log st @ [make_request method params]"
  by (auto simp: send_json_rpc_def Let_def split: prod.splits)


text \<open>
  A host that answers every request with a JSON-RPC error object, as Kodi does for a
  request it refuses (an unknown \<open>tvshowid\<close>, say): the reply has no \<open>result\<close> member.
\<close>

definition error_rpc :: "json \<Rightarrow> nat \<Rightarrow> json \<times> nat" where
  "error_rpc request n =
     (JObj [(ascii ''error'', JObj [(ascii ''code'', JInt (- 32602)),
                                    (ascii ''message'', JStr (ascii ''Invalid params.''))]),
            (ascii ''id'', JStr (ascii ''1'')),
            (ascii ''jsonrpc'', JStr (ascii ''2.0''))],
      Suc n)"

text \<open>
  Claim C8, as stated, fails.  On the error reply the key \<open>tvshows\<close> (or \<open>episodes\<close>) is
  absent, and yet neither query raises \<open>NoDataError\<close>: \<open>json_reply['result']\<close> raises
  \<open>KeyError\<close> inside \<open>send_json_rpc\<close>, before the key is looked at.
\<close>

theorem library_queries_error_reply:
  "get_tvshows error_rpc \<lparr>library = 0, rpc_log = []\<rparr> =
     (Inl KeyError,
      \<lparr>library = Suc 0,
       rpc_log = [make_request (ascii ''VideoLibrary.GetTVShows'') (Some get_tvshows_params)]\<rparr>)
   \<and> get_episodes error_rpc 45 \<lparr>library = 0, rpc_log = []\<rparr> =
     (Inl KeyError,
      \<lparr>library = Suc 0,
       rpc_log = [make_request (ascii ''VideoLibrary.GetEpisodes'')
                    (Some (get_episodes_params 45))]\<rparr>)"
  by (simp add: get_tvshows_def get_episodes_def send_json_rpc_def error_rpc_def ascii_def)

text \<open>
  Claim C8, amended.  For every host and every state, the outcome of \<open>get_tvshows\<close> is
  decided by the reply to its one request.  When the reply is a dictionary whose \<open>result\<close>
  is a dictionary, the query raises \<open>NoDataError\<close> exactly when the key \<open>tvshows\<close> is
  absent from the result or maps to a value that is empty in Python's sense (a false
  value: \<open>None\<close>, \<open>False\<close>, zero, or an empty string, list or dictionary), and otherwise
  returns the value stored under the key, unchanged.  A reply without \<open>result\<close> raises
  \<open>KeyError\<close>, a reply that is not a dictionary raises \<open>TypeError\<close>, and a result that is
  not a dictionary raises \<open>AttributeError\<close>.  \<open>get_episodes\<close> does the same with the key
  \<open>episodes\<close> and its own request.  In every case the request has been handed to the host
  once.
\<close>

theorem library_queries_no_data:
  "get_tvshows rpc st =
     (let request = make_request (ascii ''VideoLibrary.GetTVShows'') (Some get_tvshows_params);
          (reply, lib') = rpc request (library st)
      in (case reply of
            JObj kvs \<Rightarrow>
              (case map_of kvs (ascii ''result'') of
                 None \<Rightarrow> Inl KeyError
               | Some (JObj result) \<Rightarrow>
                   (case map_of result (ascii ''tvshows'') of
                      None \<Rightarrow> Inl (NoDataError (ascii ''Kodi medialibrary has no TV shows''))
                    | Some v \<Rightarrow>
                        if truthy v then Inr v
                        else Inl (NoDataError (ascii ''Kodi medialibrary has no TV shows'')))
               | Some other \<Rightarrow> Inl AttributeError)
          | other \<Rightarrow> Inl TypeError,
          st\<lparr>library := lib', rpc_log := rpc_log st @ [request]\<rparr>))
   \<and> get_episodes rpc tvshowid st =
     (let request = make_request (ascii ''VideoLibrary.GetEpisodes'')
                      (Some (get_episodes_params tvshowid));
          (reply, lib') = rpc request (library st)
      in (case reply of
            JObj kvs \<Rightarrow>
              (case map_of kvs (ascii ''result'') of
                 None \<Rightarrow> Inl KeyError
               | Some (JObj result) \<Rightarrow>
                   (case map_of result (ascii ''episodes'') of
                      None \<Rightarrow> Inl (NoDataError
                                (ascii ''TV show '' @ str_int tvshowid @ ascii '' has no episodes''))
                    | Some v \<Rightarrow>
                        if truthy v then Inr v
                        else Inl (NoDataError
                                (ascii ''TV show '' @ str_int tvshowid @ ascii '' has no episodes'')))
               | Some other \<Rightarrow> Inl AttributeError)
          | other \<Rightarrow> Inl TypeError,
          st\<lparr>library := lib', rpc_log := rpc_log st @ [request]\<rparr>))"
proof
  show "get_tvshows rpc st =
     (let request = make_request (ascii ''VideoLibrary.GetTVShows'') (Some get_tvshows_params);
          (reply, lib') = rpc request (library st)
      in (case reply of
            JObj kvs \<Rightarrow>
              (case map_of kvs (ascii ''result'') of
                 None \<Rightarrow> Inl KeyError
               | Some (JObj result) \<Rightarrow>
                   (case map_of result (ascii ''tvshows'') of
                      None \<Rightarrow> Inl (NoDataError (ascii ''Kodi medialibrary has no TV shows''))
                    | Some v \<Rightarrow>
                        if truthy v then Inr v
                        else Inl (NoDataError (ascii ''Kodi medialibrary has no TV shows'')))
               | Some other \<Rightarrow> Inl AttributeError)
          | other \<Rightarrow> Inl TypeError,
          st\<lparr>library := lib', rpc_log := rpc_log st @ [request]\<rparr>))"
    unfolding get_tvshows_def send_json_rpc_def Let_def
    by (simp split: prod.splits json.splits option.splits)
  show "get_episodes rpc tvshowid st =
     (let request = make_request (ascii ''VideoLibrary.GetEpisodes'')
                      (Some (get_episodes_params tvshowid));
          (reply, lib') = rpc request (library st)
      in (case reply of
            JObj kvs \<Rightarrow>
              (case map_of kvs (ascii ''result'') of
                 None \<Rightarrow> Inl KeyError
               | Some (JObj result) \<Rightarrow>
                   (case map_of result (ascii ''episodes'') of
                      None \<Rightarrow> Inl (NoDataError
                                (ascii ''TV show '' @ str_int tvshowid @ ascii '' has no episodes''))
                    | Some v \<Rightarrow>
                        if truthy v then Inr v
                        else Inl (NoDataError
                                (ascii ''TV show '' @ str_int tvshowid @ ascii '' has no episodes'')))
               | Some other \<Rightarrow> Inl AttributeError)
          | other \<Rightarrow> Inl TypeError,
          st\<lparr>library := lib', rpc_log := rpc_log st @ [request]\<rparr>))"
    unfolding get_episodes_def send_json_rpc_def Let_def
    by (simp split: prod.splits json.splits option.splits)
qed

theorem library_queries_no_data_witness:
  "get_tvshows demo_rpc \<lparr>library = 0, rpc_log = []\<rparr> =
     (Inr (JList [JObj [(ascii ''tvshowid'', JInt 45)]]),
      \<lparr>library = Suc 0,
       rpc_log = [make_request (ascii ''VideoLibrary.GetTVShows'') (Some get_tvshows_params)]\<rparr>)
   \<and> get_episodes demo_rpc 45 \<lparr>library = 0, rpc_log = []\<rparr> =
     (Inl (NoDataError (ascii ''TV show '' @ str_int 45 @ ascii '' has no episodes'')),
      \<lparr>library = Suc 0,
       rpc_log = [make_request (ascii ''VideoLibrary.GetEpisodes'')
                    (Some (get_episodes_params 45))]\<rparr>)"
  using library_queries_no_data [of demo_rpc "\<lparr>library = 0, rpc_log = []\<rparr>" 45]
  by (simp add: demo_rpc_def ascii_def)

text \<open>
  A host with a library of one episode, whose state is the playcount it has stored: it
  answers \<open>VideoLibrary.SetEpisodeDetails\<close> by storing the playcount of the request, and
  every other request with the details of the episode.
\<close>

definition playcount_rpc :: "json \<Rightarrow> int \<Rightarrow> json \<times> int" where
  "playcount_rpc request stored =
     (if subscript request (ascii ''method'') = Inr (JStr (ascii ''VideoLibrary.SetEpisodeDetails''))
      then (JObj [(ascii ''result'', JStr (ascii ''OK''))],
            (case subscript request (ascii ''params'') of
               Inr params \<Rightarrow>
                 (case subscript params (ascii ''playcount'') of
                    Inr (JInt n) \<Rightarrow> n
                  | other \<Rightarrow> stored)
             | Inl e \<Rightarrow> stored))
      else (JObj [(ascii ''result'',
                   JObj [(ascii ''episodedetails'', JObj [(ascii ''playcount'', JInt stored)])])],
            stored))"

lemma get_episode_details_playcount_rpc:
  "get_episode_details playcount_rpc 1043 \<lparr>library = n, rpc_log = []\<rparr> =
     (Inr (JObj [(ascii ''playcount'', JInt n)]),
      \<lparr>library = n,
       rpc_log = [make_request (ascii ''VideoLibrary.GetEpisodeDetails'')
                    (Some (get_episode_details_params 1043))]\<rparr>)"
  by (simp add: get_episode_details_def send_json_rpc_def playcount_rpc_def make_request_def
        ascii_def)

lemma subscript_playcount:
  "subscript (JObj [(ascii ''playcount'', JInt n)]) (ascii ''playcount'') = Inr (JInt n)"
  by simp

text \<open>
  Claim C10.  Once the details query has answered with the episode's original playcount,
  \<open>set_episode_playcount\<close> hands the \<open>VideoLibrary.SetEpisodeDetails\<close> request to the host
  if and only if the requested playcount differs from \<open>int(bool(original))\<close>, which is 1
  for a true original and 0 for a false one.  When they differ, the host serves the
  request on the library the query left: the library that results is the host's, the
  request is the second and last one issued, and the call raises only if the reply has
  no \<open>result\<close>.  When the two are equal the details query stays the only request issued,
  and the function returns with the state the query left behind: the library is not
  touched again.
\<close>

theorem set_episode_playcount_sends:
  assumes "get_episode_details rpc episode_id st = (Inr details, st1)"
      and "subscript details (ascii ''playcount'') = Inr original_playcount"
  shows "rpc_log st1 = rpc_log st @ [make_request (ascii ''VideoLibrary.GetEpisodeDetails'')
                                        (Some (get_episode_details_params episode_id))]
       \<and> rpc_log (snd (set_episode_playcount rpc episode_id playcount st)) =
           rpc_log st1 @
             (if playcount \<noteq> int_bool original_playcount
              then [make_request (ascii ''VideoLibrary.SetEpisodeDetails'')
                      (Some (set_episode_details_params episode_id playcount))]
              else [])
       \<and> (playcount = int_bool original_playcount \<longrightarrow>
            set_episode_playcount rpc episode_id playcount st = (Inr (), st1))
       \<and> set_episode_playcount rpc episode_id playcount st =
           (if playcount \<noteq> (if truthy original_playcount then 1 else 0)
            then (let request = make_request (ascii ''VideoLibrary.SetEpisodeDetails'')
                                  (Some (set_episode_details_params episode_id playcount));
                      (reply, lib2) = rpc request (library st1)
                  in (case subscript reply (ascii ''result'') of
                        Inl e \<Rightarrow> Inl e
                      | Inr r \<Rightarrow> Inr (),
                      st1\<lparr>library := lib2, rpc_log := rpc_log st1 @ [request]\<rparr>))
            else (Inr (), st1))"
proof (intro conjI)
  from assms(1)
  show "rpc_log st1 = rpc_log st @ [make_request (ascii ''VideoLibrary.GetEpisodeDetails'')
                                        (Some (get_episode_details_params episode_id))]"
    by (auto simp: get_episode_details_def split: prod.splits sum.splits
             dest: send_json_rpc_log)
  show "rpc_log (snd (set_episode_playcount rpc episode_id playcount st)) =
           rpc_log st1 @
             (if playcount \<noteq> int_bool original_playcount
              then [make_request (ascii ''VideoLibrary.SetEpisodeDetails'')
                      (Some (set_episode_details_params episode_id playcount))]
              else [])"
    using assms
    by (auto simp: set_episode_playcount_def split: prod.splits sum.splits
             dest: send_json_rpc_log)
  show "playcount = int_bool original_playcount \<longrightarrow>
            set_episode_playcount rpc episode_id playcount st = (Inr (), st1)"
    using assms by (simp add: set_episode_playcount_def)
  show "set_episode_playcount rpc episode_id playcount st =
           (if playcount \<noteq> (if truthy original_playcount then 1 else 0)
            then (let request = make_request (ascii ''VideoLibrary.SetEpisodeDetails'')
                                  (Some (set_episode_details_params episode_id playcount));
                      (reply, lib2) = rpc request (library st1)
                  in (case subscript reply (ascii ''result'') of
                        Inl e \<Rightarrow> Inl e
                      | Inr r \<Rightarrow> Inr (),
                      st1\<lparr>library := lib2, rpc_log := rpc_log st1 @ [request]\<rparr>))
            else (Inr (), st1))"
    using assms
    by (simp add: set_episode_playcount_def send_json_rpc_def int_bool_def Let_def
             split: prod.splits sum.splits)
qed

theorem set_episode_playcount_sends_witness:
  "set_episode_playcount playcount_rpc 1043 0 \<lparr>library = 3, rpc_log = []\<rparr> =
     (Inr (),
      \<lparr>library = 0,
       rpc_log = [make_request (ascii ''VideoLibrary.GetEpisodeDetails'')
                    (Some (get_episode_details_params 1043)),
                  make_request (ascii ''VideoLibrary.SetEpisodeDetails'')
                    (Some (set_episode_details_params 1043 0))]\<rparr>)
   \<and> set_episode_playcount playcount_rpc 1043 1 \<lparr>library = 3, rpc_log = []\<rparr> =
     (Inr (),
      \<lparr>library = 3,
       rpc_log = [make_request (ascii ''VideoLibrary.GetEpisodeDetails'')
                    (Some (get_episode_details_params 1043))]\<rparr>)
   \<and> set_episode_playcount playcount_rpc 1043 1 \<lparr>library = 0, rpc_log = []\<rparr> =
     (Inr (),
      \<lparr>library = 1,
       rpc_log = [make_request (ascii ''VideoLibrary.GetEpisodeDetails'')
                    (Some (get_episode_details_params 1043)),
                  make_request (ascii ''VideoLibrary.SetEpisodeDetails'')
                    (Some (set_episode_details_params 1043 1))]\<rparr>)
   \<and> set_episode_playcount playcount_rpc 1043 0 \<lparr>library = 0, rpc_log = []\<rparr> =
     (Inr (),
      \<lparr>library = 0,
       rpc_log = [make_request (ascii ''VideoLibrary.GetEpisodeDetails'')
                    (Some (get_episode_details_params 1043))]\<rparr>)"
  using set_episode_playcount_sends
          [OF get_episode_details_playcount_rpc subscript_playcount, of 3 0]
        set_episode_playcount_sends
          [OF get_episode_details_playcount_rpc subscript_playcount, of 3 1]
        set_episode_playcount_sends
          [OF get_episode_details_playcount_rpc subscript_playcount, of 0 1]
        set_episode_playcount_sends
          [OF get_episode_details_playcount_rpc subscript_playcount, of 0 0]
  by (simp add: playcount_rpc_def make_request_def set_episode_details_params_def ascii_def)

section \<open>kodi_service.py: the localization service\<close>

subsection \<open>Parsing strings.po\<close>

text \<open>
  \<open>_parse_strings_po\<close> applies \<open>re.findall\<close> with the pattern
  \<^verbatim>\<open>^msgctxt "#(\d+?)"\r?\nmsgid "(.*)"\r?$\<close> under \<open>re.M\<close> and builds a dictionary from
  the pairs of groups.

  In a Python 3 \<open>str\<close> pattern \<open>\d\<close> is any character of the Unicode category Nd, and
  \<open>int\<close> reads such digits by their decimal value.  Every Nd character belongs to a run of
  ten consecutive code points that stand for 0 to 9; \<open>nd_blocks\<close> lists the first code point
  of each run (Unicode 14.0, the table of CPython 3.11).
\<close>

definition nd_blocks :: "nat list" where
  "nd_blocks =
     [0x30, 0x660, 0x6f0, 0x7c0, 0x966, 0x9e6, 0xa66, 0xae6, 0xb66, 0xbe6, 0xc66, 0xce6,
      0xd66, 0xde6, 0xe50, 0xed0, 0xf20, 0x1040, 0x1090, 0x17e0, 0x1810, 0x1946, 0x19d0,
      0x1a80, 0x1a90, 0x1b50, 0x1bb0, 0x1c40, 0x1c50, 0xa620, 0xa8d0, 0xa900, 0xa9d0,
      0xa9f0, 0xaa50, 0xabf0, 0xff10, 0x104a0, 0x10d30, 0x11066, 0x110f0, 0x11136,
      0x111d0, 0x112f0, 0x11450, 0x114d0, 0x11650, 0x116c0, 0x11730, 0x118e0, 0x11950,
      0x11c50, 0x11d50, 0x11da0, 0x16a60, 0x16ac0, 0x16b50, 0x1d7ce, 0x1d7d8, 0x1d7e2,
      0x1d7ec, 0x1d7f6, 0x1e140, 0x1e2f0, 0x1e950, 0x1fbf0]"

definition decimal_value :: "nat \<Rightarrow> nat option" where
  "decimal_value c =
     (case find (\<lambda>s. s \<le> c \<and> c < s + 10) nd_blocks of
        None \<Rightarrow> None
      | Some s \<Rightarrow> Some (c - s))"

definition is_decimal :: "nat \<Rightarrow> bool" where
  "is_decimal c = (decimal_value c \<noteq> None)"

text \<open>
  The pattern is matched by backtracking, as the \<open>re\<close> module does.  Each piece of the
  pattern is a function that takes what has to match after it (the continuation) and the
  text that is left, and returns the first match in the order the engine tries them:
  a greedy piece tries to consume first, a lazy one tries the continuation first.
  \<open>eol\<close> is \<open>$\<close> under \<open>re.M\<close>: the end of the text, or the place before a newline.
  \<open>.\<close> is any character but the newline.
\<close>

type_synonym 'r cont = "py_str \<Rightarrow> 'r option"

fun lit :: "nat \<Rightarrow> 'r cont \<Rightarrow> 'r cont" where
  "lit c k [] = None"
| "lit c k (x # s) = (if x = c then k s else None)"

fun lits :: "py_str \<Rightarrow> 'r cont \<Rightarrow> 'r cont" where
  "lits [] k = k"
| "lits (c # cs) k = lit c (lits cs k)"

definition opt_greedy :: "('r cont \<Rightarrow> 'r cont) \<Rightarrow> 'r cont \<Rightarrow> 'r cont" where
  "opt_greedy p k s = (case p k s of Some r \<Rightarrow> Some r | None \<Rightarrow> k s)"

definition eol :: "'r cont \<Rightarrow> 'r cont" where
  "eol k s = (case s of [] \<Rightarrow> k s | x # s' \<Rightarrow> if x = 10 then k s else None)"

fun lazy_star_digits :: "(py_str \<Rightarrow> 'r cont) \<Rightarrow> py_str \<Rightarrow> 'r cont" where
  "lazy_star_digits k acc [] = k acc []"
| "lazy_star_digits k acc (x # s) =
     (case k acc (x # s) of
        Some r \<Rightarrow> Some r
      | None \<Rightarrow> if is_decimal x then lazy_star_digits k (acc @ [x]) s else None)"

fun lazy_plus_digits :: "(py_str \<Rightarrow> 'r cont) \<Rightarrow> 'r cont" where
  "lazy_plus_digits k [] = None"
| "lazy_plus_digits k (x # s) = (if is_decimal x then lazy_star_digits k [x] s else None)"

fun greedy_star_dot :: "(py_str \<Rightarrow> 'r cont) \<Rightarrow> py_str \<Rightarrow> 'r cont" where
  "greedy_star_dot k acc [] = k acc []"
| "greedy_star_dot k acc (x # s) =
     (if x \<noteq> 10
      then (case greedy_star_dot k (acc @ [x]) s of
              Some r \<Rightarrow> Some r
            | None \<Rightarrow> k acc (x # s))
      else k acc (x # s))"

definition match_pattern :: "py_str \<Rightarrow> (py_str \<times> py_str \<times> py_str) option" where
  "match_pattern =
     lits (ascii ''msgctxt \"#'')
       (lazy_plus_digits (\<lambda>string_id.
          lit 34 (opt_greedy (lit 13) (lit 10
            (lits (ascii ''msgid \"'')
               (greedy_star_dot (\<lambda>string.
                  lit 34 (opt_greedy (lit 13) (eol (\<lambda>rest.
                    Some (string_id, string, rest))))) []))))))"


text \<open>
  A match never leaves more text than it was given; \<open>findall_from\<close> below needs this
  to terminate.
\<close>

definition has_rest_le :: "(py_str \<times> py_str \<times> py_str) cont \<Rightarrow> bool" where
  "has_rest_le k = (\<forall>s a b r. k s = Some (a, b, r) \<longrightarrow> length r \<le> length s)"

lemma has_rest_leD: "has_rest_le k \<Longrightarrow> k s = Some (a, b, r) \<Longrightarrow> length r \<le> length s"
  unfolding has_rest_le_def by blast

lemma has_rest_le_lit: "has_rest_le k \<Longrightarrow> has_rest_le (lit c k)"
  unfolding has_rest_le_def
proof (intro allI impI)
  fix s a b r assume k: "\<forall>s a b r. k s = Some (a, b, r) \<longrightarrow> length r \<le> length s"
    and m: "lit c k s = Some (a, b, r)"
  show "length r \<le> length s"
  proof (cases s)
    case Nil with m show ?thesis by simp
  next
    case (Cons x s')
    with m have "k s' = Some (a, b, r)" by (simp split: if_splits)
    with k have "length r \<le> length s'" by blast
    with Cons show ?thesis by simp
  qed
qed

lemma has_rest_le_lits: "has_rest_le k \<Longrightarrow> has_rest_le (lits cs k)"
  by (induction cs) (simp_all add: has_rest_le_lit)

lemma has_rest_le_opt:
  "has_rest_le k \<Longrightarrow> has_rest_le (p k) \<Longrightarrow> has_rest_le (opt_greedy p k)"
  unfolding has_rest_le_def opt_greedy_def by (auto split: option.splits)

lemma has_rest_le_eol: "has_rest_le k \<Longrightarrow> has_rest_le (eol k)"
  unfolding eol_def by (subst has_rest_le_def) (auto split: list.splits if_splits dest: has_rest_leD)

lemma lazy_star_digits_le:
  "(\<And>acc. has_rest_le (k acc)) \<Longrightarrow> lazy_star_digits k acc s = Some (a, b, r) \<Longrightarrow>
   length r \<le> length s"
proof (induction s arbitrary: acc)
  case Nil
  then have "k acc [] = Some (a, b, r)" by simp
  from has_rest_leD [OF Nil.prems(1) this] show ?case .
next
  case (Cons x s)
  show ?case
  proof (cases "k acc (x # s)")
    case None
    with Cons.prems(2) have "lazy_star_digits k (acc @ [x]) s = Some (a, b, r)"
      by (simp split: if_splits)
    from Cons.IH [OF Cons.prems(1) this] show ?thesis by simp
  next
    case (Some t)
    with Cons.prems(2) have "k acc (x # s) = Some (a, b, r)" by simp
    with Cons.prems(1) show ?thesis unfolding has_rest_le_def by blast
  qed
qed

lemma has_rest_le_lazy_plus:
  assumes "\<And>acc. has_rest_le (k acc)" shows "has_rest_le (lazy_plus_digits k)"
  unfolding has_rest_le_def
proof (intro allI impI)
  fix s a b r assume m: "lazy_plus_digits k s = Some (a, b, r)"
  show "length r \<le> length s"
  proof (cases s)
    case Nil with m show ?thesis by simp
  next
    case (Cons x s')
    with m have "lazy_star_digits k [x] s' = Some (a, b, r)" by (simp split: if_splits)
    from lazy_star_digits_le [OF assms this] Cons show ?thesis by simp
  qed
qed

lemma greedy_star_dot_le:
  "(\<And>acc. has_rest_le (k acc)) \<Longrightarrow> greedy_star_dot k acc s = Some (a, b, r) \<Longrightarrow>
   length r \<le> length s"
proof (induction s arbitrary: acc)
  case Nil
  then have "k acc [] = Some (a, b, r)" by simp
  from has_rest_leD [OF Nil.prems(1) this] show ?case .
next
  case (Cons x s)
  show ?case
  proof (cases "x \<noteq> 10 \<and> greedy_star_dot k (acc @ [x]) s \<noteq> None")
    case True
    with Cons.prems(2) have "greedy_star_dot k (acc @ [x]) s = Some (a, b, r)"
      by (auto split: option.splits)
    from Cons.IH [OF Cons.prems(1) this] show ?thesis by simp
  next
    case False
    with Cons.prems(2) have "k acc (x # s) = Some (a, b, r)"
      by (auto split: option.splits if_splits)
    with Cons.prems(1) show ?thesis unfolding has_rest_le_def by blast
  qed
qed

lemma has_rest_le_greedy_star_dot:
  "(\<And>acc. has_rest_le (k acc)) \<Longrightarrow> has_rest_le (greedy_star_dot k acc)"
  unfolding has_rest_le_def using greedy_star_dot_le unfolding has_rest_le_def by blast

lemma has_rest_le_ret: "has_rest_le (\<lambda>rest. Some (a, b, rest))"
  by (simp add: has_rest_le_def)

lemma match_pattern_rest_le: "has_rest_le match_pattern"
  unfolding match_pattern_def
  by (intro has_rest_le_lits has_rest_le_lazy_plus has_rest_le_lit has_rest_le_opt
        has_rest_le_greedy_star_dot has_rest_le_eol has_rest_le_ret)

text \<open>
  \<open>re.findall\<close> scans the text from left to right.  \<open>^\<close> under \<open>re.M\<close> holds at the start
  of the text and after each newline.  After a match the scan resumes where the match
  ended, one character further if the match was empty; without a match it moves on by
  one character.  The scan also tries the position at the very end of the text.
\<close>

definition at_bol :: "py_str \<Rightarrow> nat \<Rightarrow> bool" where
  "at_bol text pos = (pos = 0 \<or> text ! (pos - 1) = 10)"

function findall_from :: "py_str \<Rightarrow> nat \<Rightarrow> (py_str \<times> py_str) list" where
  "findall_from text pos =
     (if length text < pos then []
      else case (if at_bol text pos then match_pattern (drop pos text) else None) of
             None \<Rightarrow> findall_from text (pos + 1)
           | Some (string_id, string, rest) \<Rightarrow>
               (let stop = length text - length rest
                in (string_id, string) #
                   findall_from text (if stop = pos then pos + 1 else stop)))"
  by pat_completeness auto
termination
proof (relation "measure (\<lambda>(text, pos). length text + 1 - pos)", goal_cases)
  case 1 show ?case by simp
next
  case (2 txt0 pos) then show ?case by simp
next
  case (3 txt0 pos x2 string_id y string rest stop)
  then have "match_pattern (drop pos txt0) = Some (string_id, string, rest)"
    by (simp split: if_splits)
  with match_pattern_rest_le have "length rest \<le> length (drop pos txt0)"
    unfolding has_rest_le_def by blast
  with 3 show ?case by (auto split: if_splits)
qed

declare findall_from.simps [simp del]

definition findall :: "py_str \<Rightarrow> (py_str \<times> py_str) list" where
  "findall text = findall_from text 0"

text \<open>
  \<open>int(string_id)\<close>: the decimal value of a string of decimal digits; the empty string
  raises \<open>ValueError\<close>.  Since CPython 3.11 \<open>int\<close> also raises \<open>ValueError\<close> on a string
  of more digits than \<open>sys.get_int_max_str_digits()\<close>, leading zeros included; the add-on
  never changes the limit, so it is the interpreter's default,
  \<open>sys.int_info.default_max_str_digits\<close>.  Signs, blanks and underscores, which \<open>int\<close>
  also accepts, are outside the model: the group of the pattern never holds them.
\<close>

definition int_max_str_digits :: nat where
  "int_max_str_digits = 4300"

fun digits_value :: "int \<Rightarrow> py_str \<Rightarrow> int option" where
  "digits_value a [] = Some a"
| "digits_value a (c # s) =
     (case decimal_value c of None \<Rightarrow> None | Some d \<Rightarrow> digits_value (10 * a + int d) s)"

definition py_int :: "py_str \<Rightarrow> pyexc + int" where
  "py_int s =
     (if s = [] then Inl ValueError
      else case digits_value 0 s of
             None \<Rightarrow> Inl OutsideModel
           | Some i \<Rightarrow> if int_max_str_digits < length s then Inl ValueError else Inr i)"

text \<open>
  The comprehension \<open>{string: int(string_id) for string_id, string in pairs if string}\<close>:
  a later pair with the same string replaces the value and keeps the key's place.
\<close>

fun dict_comprehension ::
  "(py_str \<times> py_str) list \<Rightarrow> (py_str \<times> int) list \<Rightarrow> pyexc + (py_str \<times> int) list" where
  "dict_comprehension [] d = Inr d"
| "dict_comprehension ((string_id, string) # ps) d =
     (if string \<noteq> []
      then (case py_int string_id of
              Inl e \<Rightarrow> Inl e
            | Inr i \<Rightarrow> dict_comprehension ps (AList.update string i d))
      else dict_comprehension ps d)"

definition parse_strings_po :: "py_str \<Rightarrow> pyexc + (py_str \<times> int) list" where
  "parse_strings_po strings_po = dict_comprehension (findall strings_po) []"


subsection \<open>What the specification says the parser computes\<close>

text \<open>
  The specification describes the result by lines: for each pair of consecutive lines
  \<^verbatim>\<open>msgctxt "#<id>"\<close> and \<^verbatim>\<open>msgid "<string>"\<close>, each with an optional trailing carriage
  return, with a non-empty string, the mapping takes the string to the id; a later
  pair wins over an earlier one with the same string.  The definitions below follow
  these words: the text is cut at the newlines, a line may lose one trailing carriage
  return, \<open>records\<close> collects the pairs in order and \<open>catalog_mapping\<close> folds them into
  a map.
\<close>

fun split_lines :: "py_str \<Rightarrow> py_str list" where
  "split_lines [] = [[]]"
| "split_lines (c # s) =
     (if c = 10 then [] # split_lines s
      else (case split_lines s of [] \<Rightarrow> [[c]] | l # ls \<Rightarrow> (c # l) # ls))"

definition strip_cr :: "py_str \<Rightarrow> py_str" where
  "strip_cr l = (if l \<noteq> [] \<and> last l = 13 then butlast l else l)"

definition msgctxt_id :: "py_str \<Rightarrow> py_str option" where
  "msgctxt_id l =
     (let digits = butlast (drop 10 l)
      in if take 10 l = ascii ''msgctxt \"#'' \<and> 10 < length l \<and> last l = 34
            \<and> digits \<noteq> [] \<and> list_all is_decimal digits
         then Some digits else None)"

definition msgid_string :: "py_str \<Rightarrow> py_str option" where
  "msgid_string l =
     (if take 7 l = ascii ''msgid \"'' \<and> 7 < length l \<and> last l = 34
      then Some (butlast (drop 7 l)) else None)"

fun records :: "py_str list \<Rightarrow> (py_str \<times> py_str) list" where
  "records (l0 # l1 # ls) =
     (case (msgctxt_id (strip_cr l0), msgid_string (strip_cr l1)) of
        (Some i, Some s) \<Rightarrow> [(i, s)]
      | _ \<Rightarrow> [])
     @ records (l1 # ls)"
| "records ls = []"

subsection \<open>The pattern finds exactly the records\<close>

lemma split_lines_ne [simp]: "split_lines s \<noteq> []"
  by (induction s) (auto split: list.splits)

lemma split_lines_tw:
  "split_lines s = takeWhile (\<lambda>c. c \<noteq> 10) s #
     (case dropWhile (\<lambda>c. c \<noteq> 10) s of [] \<Rightarrow> [] | x # s' \<Rightarrow> split_lines s')"
  by (induction s) (auto split: list.splits)

lemma lits_eq:
  "lits p k s = (if take (length p) s = p then k (drop (length p) s) else None)"
proof (induction p arbitrary: s)
  case Nil show ?case by simp
next
  case (Cons c cs)
  show ?case by (cases s) (auto simp: Cons.IH)
qed

lemma lazy_star_digits_run:
  assumes "\<And>a x s. is_decimal x \<Longrightarrow> k a (x # s) = None"
  shows "lazy_star_digits k acc s =
           k (acc @ takeWhile is_decimal s) (dropWhile is_decimal s)"
proof (induction s arbitrary: acc)
  case Nil show ?case by simp
next
  case (Cons x s)
  show ?case
  proof (cases "is_decimal x")
    case True
    with assms have "k acc (x # s) = None" by simp
    with True Cons.IH [of "acc @ [x]"] show ?thesis by simp
  next
    case False
    then show ?thesis by (simp split: option.splits)
  qed
qed

lemma not_decimal_34: "\<not> is_decimal 34"
  by (simp add: is_decimal_def decimal_value_def nd_blocks_def)

definition at_eol :: "py_str \<Rightarrow> bool" where
  "at_eol s = (s = [] \<or> hd s = 10)"

definition closing :: "py_str \<Rightarrow> py_str \<Rightarrow> (py_str \<times> py_str \<times> py_str) cont" where
  "closing string_id string =
     lit 34 (opt_greedy (lit 13) (eol (\<lambda>rest. Some (string_id, string, rest))))"

lemma closing_eq:
  "closing i t s =
     (if s \<noteq> [] \<and> hd s = 34 \<and> at_eol (tl s) then Some (i, t, tl s)
      else if length s > 1 \<and> hd s = 34 \<and> hd (tl s) = 13 \<and> at_eol (tl (tl s))
           then Some (i, t, tl (tl s))
      else None)"
proof (cases s)
  case Nil then show ?thesis by (simp add: closing_def)
next
  case (Cons x s1)
  show ?thesis
  proof (cases s1)
    case Nil
    with Cons show ?thesis
      by (simp add: closing_def opt_greedy_def eol_def at_eol_def)
  next
    case (Cons y s2)
    with \<open>s = x # s1\<close> show ?thesis
      by (cases s2) (auto simp: closing_def opt_greedy_def eol_def at_eol_def)
  qed
qed

abbreviation not_nl :: "nat \<Rightarrow> bool" where
  "not_nl \<equiv> (\<lambda>c. c \<noteq> 10)"

lemma at_eol_takeWhile: "at_eol s \<longleftrightarrow> takeWhile not_nl s = []"
  by (cases s) (auto simp: at_eol_def)

lemma at_eol_dropWhile: "at_eol s \<Longrightarrow> dropWhile not_nl s = s"
  by (cases s) (auto simp: at_eol_def)

definition line_string :: "py_str \<Rightarrow> py_str option" where
  "line_string l = (if l \<noteq> [] \<and> last l = 34 then Some (butlast l) else None)"

lemma strip_cr_Cons:
  "strip_cr (x # l) = (if l = [] then (if x = 13 then [] else [x]) else x # strip_cr l)"
  by (auto simp: strip_cr_def)

lemma line_string_Cons:
  "line_string (x # l) = (if l = [] then (if x = 34 then Some [] else None)
                          else map_option ((#) x) (line_string l))"
  by (auto simp: line_string_def)

lemma strip_cr_eq_Nil: "strip_cr l = [] \<longleftrightarrow> l = [] \<or> l = [13]"
  by (cases l rule: rev_cases) (auto simp: strip_cr_def)

lemma greedy_closing:
  "greedy_star_dot (closing i) acc s =
     (case line_string (strip_cr (takeWhile not_nl s)) of
        None \<Rightarrow> None
      | Some t \<Rightarrow> Some (i, acc @ t, dropWhile not_nl s))"
proof (induction s arbitrary: acc)
  case Nil
  show ?case by (simp add: closing_eq strip_cr_def line_string_def)
next
  case (Cons x s)
  show ?case
  proof (cases "x = 10")
    case True
    then show ?thesis by (simp add: closing_eq strip_cr_def line_string_def)
  next
    case nl: False
    let ?l' = "takeWhile not_nl s"
    show ?thesis
    proof (cases "line_string (strip_cr ?l')")
      case (Some t)
      then have "strip_cr ?l' \<noteq> []" by (auto simp: line_string_def)
      then have "?l' \<noteq> []" by (auto simp: strip_cr_def)
      with Some nl \<open>strip_cr ?l' \<noteq> []\<close> show ?thesis
        by (simp add: Cons.IH strip_cr_Cons line_string_Cons)
    next
      case None
      then have "greedy_star_dot (closing i) (acc @ [x]) s = None"
        by (simp add: Cons.IH)
      with nl have g: "greedy_star_dot (closing i) acc (x # s) = closing i acc (x # s)"
        by simp
      show ?thesis
      proof (cases "?l' = []")
        case True
        then have e: "at_eol s" by (simp add: at_eol_takeWhile)
        with nl True show ?thesis unfolding g
          by (auto simp: closing_eq strip_cr_Cons line_string_Cons at_eol_dropWhile
                         line_string_def at_eol_def)
      next
        case False
        then obtain y s1 where s: "s = y # s1" and y: "y \<noteq> 10" by (cases s) (auto split: if_splits)
        have n: "\<not> at_eol s" using False by (simp add: at_eol_takeWhile)
        show ?thesis
        proof (cases "strip_cr ?l' = []")
          case True
          with False have l13: "?l' = [13]" by (simp add: strip_cr_eq_Nil)
          with s have y13: "y = 13" and e1: "takeWhile not_nl s1 = []"
            by (auto split: if_splits)
          from e1 have "at_eol s1" by (simp add: at_eol_takeWhile)
          with nl s y13 l13 n show ?thesis unfolding g
            by (auto simp: closing_eq strip_cr_Cons line_string_Cons at_eol_dropWhile
                           line_string_def)
        next
          case ne: False
          have "\<not> (y = 13 \<and> at_eol s1)"
          proof
            assume "y = 13 \<and> at_eol s1"
            with s have "?l' = [13]" by (simp add: at_eol_takeWhile)
            with ne show False by (simp add: strip_cr_def)
          qed
          with nl s n None ne False show ?thesis unfolding g
            by (auto simp: closing_eq strip_cr_Cons line_string_Cons)
        qed
      qed
    qed
  qed
qed

definition opt_cr :: "py_str \<Rightarrow> bool" where
  "opt_cr c = (c = [] \<or> c = [13])"

definition record_at :: "py_str \<Rightarrow> py_str \<Rightarrow> py_str \<Rightarrow> py_str \<Rightarrow> bool" where
  "record_at s i t r =
     (\<exists>c1 c2. s = ascii ''msgctxt \"#'' @ i @ [34] @ c1 @ [10] @ ascii ''msgid \"'' @ t @ [34] @ c2 @ r
        \<and> i \<noteq> [] \<and> list_all is_decimal i \<and> opt_cr c1 \<and> opt_cr c2 \<and> at_eol r
        \<and> 10 \<notin> set t)"

definition after_id :: "py_str \<Rightarrow> (py_str \<times> py_str \<times> py_str) cont" where
  "after_id i = lit 34 (opt_greedy (lit 13) (lit 10
                  (lits (ascii ''msgid \"'') (greedy_star_dot (closing i) []))))"

lemma match_pattern_after_id:
  "match_pattern = lits (ascii ''msgctxt \"#'') (lazy_plus_digits after_id)"
  unfolding match_pattern_def after_id_def closing_def ..

lemma after_id_digit: "is_decimal x \<Longrightarrow> after_id a (x # s) = None"
  using not_decimal_34 by (auto simp: after_id_def)

lemma lazy_plus_after_id:
  "lazy_plus_digits after_id d =
     (if takeWhile is_decimal d \<noteq> []
      then after_id (takeWhile is_decimal d) (dropWhile is_decimal d) else None)"
  by (cases d) (simp_all add: lazy_star_digits_run [of after_id, OF after_id_digit])

lemma after_id_eq:
  "after_id i s =
     (if take 2 s = [34, 10] then
        lits (ascii ''msgid \"'') (greedy_star_dot (closing i) []) (drop 2 s)
      else if take 3 s = [34, 13, 10] then
        lits (ascii ''msgid \"'') (greedy_star_dot (closing i) []) (drop 3 s)
      else None)"
proof (cases s)
  case Nil then show ?thesis by (simp add: after_id_def)
next
  case s: (Cons x s1)
  show ?thesis
  proof (cases s1)
    case Nil with s show ?thesis by (simp add: after_id_def opt_greedy_def)
  next
    case s1: (Cons y s2)
    show ?thesis
    proof (cases s2)
      case Nil with s s1 show ?thesis by (auto simp add: after_id_def opt_greedy_def)
    next
      case (Cons z s3)
      with s s1 show ?thesis
        by (auto simp add: after_id_def opt_greedy_def split: option.splits)
    qed
  qed
qed

lemma len_msgid: "length (ascii ''msgid \"'') = 7"
  by (simp add: ascii_def)

lemma len_msgctxt: "length (ascii ''msgctxt \"#'') = 10"
  by (simp add: ascii_def)

lemma lits_msgid:
  "lits (ascii ''msgid \"'') k s =
     (if take 7 s = ascii ''msgid \"'' then k (drop 7 s) else None)"
  unfolding lits_eq len_msgid ..

lemma lits_msgctxt:
  "lits (ascii ''msgctxt \"#'') k s =
     (if take 10 s = ascii ''msgctxt \"#'' then k (drop 10 s) else None)"
  unfolding lits_eq len_msgctxt ..

lemma take_eq_appendD: "take n s = p \<Longrightarrow> s = p @ drop n s"
  by (metis append_take_drop_id)

lemma line_string_SomeD: "line_string l = Some t \<Longrightarrow> l = t @ [34]"
  by (auto simp: line_string_def split: if_splits) (metis append_butlast_last_id)

lemma strip_cr_decomp: "\<exists>c. opt_cr c \<and> l = strip_cr l @ c"
proof (cases "l \<noteq> [] \<and> last l = 13")
  case True
  then have "l = strip_cr l @ [13]" by (simp add: strip_cr_def) (metis append_butlast_last_id)
  then show ?thesis unfolding opt_cr_def by blast
next
  case False
  then have "l = strip_cr l @ []" by (auto simp: strip_cr_def)
  then show ?thesis unfolding opt_cr_def by blast
qed

lemma strip_cr_quote: "opt_cr c \<Longrightarrow> strip_cr (l @ [34] @ c) = l @ [34]"
  by (auto simp: opt_cr_def strip_cr_def butlast_append)

lemma takeWhile_dropWhile_line:
  "10 \<notin> set l \<Longrightarrow> at_eol r \<Longrightarrow>
   takeWhile not_nl (l @ r) = l \<and> dropWhile not_nl (l @ r) = r"
  by (cases r) (auto simp: at_eol_def takeWhile_append dropWhile_append)

lemma at_eol_dropWhile_nl [simp]: "at_eol (dropWhile not_nl s)"
  by (induction s) (auto simp: at_eol_def)

lemma not_decimal_10: "\<not> is_decimal 10"
  by (simp add: is_decimal_def decimal_value_def nd_blocks_def)

lemma not_decimal_13: "\<not> is_decimal 13"
  by (simp add: is_decimal_def decimal_value_def nd_blocks_def)

lemma opt_cr_no_nl: "opt_cr c \<Longrightarrow> 10 \<notin> set c"
  by (auto simp: opt_cr_def)

lemma msgid_tail:
  "lits (ascii ''msgid \"'') (greedy_star_dot (closing i) []) s2 = Some (i', t, r) \<longleftrightarrow>
     i' = i \<and> (\<exists>c2. s2 = ascii ''msgid \"'' @ t @ [34] @ c2 @ r \<and> opt_cr c2 \<and> at_eol r
               \<and> 10 \<notin> set t)"
  (is "?L \<longleftrightarrow> ?R")
proof
  assume ?L
  then have p: "take 7 s2 = ascii ''msgid \"''"
    and g: "greedy_star_dot (closing i) [] (drop 7 s2) = Some (i', t, r)"
    by (auto simp: lits_msgid split: if_splits)
  let ?s3 = "drop 7 s2"
  from g have ls: "line_string (strip_cr (takeWhile not_nl ?s3)) = Some t"
    and r: "r = dropWhile not_nl ?s3" and i: "i' = i"
    by (auto simp: greedy_closing split: option.splits)
  obtain c2 where c2: "opt_cr c2"
    and l: "takeWhile not_nl ?s3 = strip_cr (takeWhile not_nl ?s3) @ c2"
    using strip_cr_decomp by blast
  from line_string_SomeD [OF ls] l have tw: "takeWhile not_nl ?s3 = t @ [34] @ c2" by simp
  have "?s3 = takeWhile not_nl ?s3 @ dropWhile not_nl ?s3" by simp
  with tw r have s3: "?s3 = t @ [34] @ c2 @ r" by simp
  have "set t \<subseteq> set (takeWhile not_nl ?s3)" using tw by auto
  then have "10 \<notin> set t" by (auto dest: set_takeWhileD)
  moreover from take_eq_appendD [OF p] s3
  have "s2 = ascii ''msgid \"'' @ t @ [34] @ c2 @ r" by simp
  moreover have "at_eol r" using r by simp
  ultimately show ?R using i c2 by blast
next
  assume ?R
  then obtain c2 where s2: "s2 = ascii ''msgid \"'' @ t @ [34] @ c2 @ r"
    and c2: "opt_cr c2" and r: "at_eol r" and t: "10 \<notin> set t" and i: "i' = i" by blast
  have "10 \<notin> set (t @ [34] @ c2)" using t opt_cr_no_nl [OF c2] by simp
  from takeWhile_dropWhile_line [OF this r]
  have tw: "takeWhile not_nl (t @ [34] @ c2 @ r) = t @ [34] @ c2"
    and dw: "dropWhile not_nl (t @ [34] @ c2 @ r) = r" by simp_all
  have "line_string (strip_cr (t @ [34] @ c2)) = Some t"
    using strip_cr_quote [OF c2, of t] by (simp add: line_string_def)
  with tw dw have "greedy_star_dot (closing i) [] (t @ [34] @ c2 @ r) = Some (i, t, r)"
    by (simp add: greedy_closing)
  then show ?L using i unfolding s2 by (simp add: lits_msgid len_msgid)
qed

lemma match_pattern_iff: "match_pattern s = Some (i, t, r) \<longleftrightarrow> record_at s i t r"
  (is "?L \<longleftrightarrow> ?R")
proof
  assume ?L
  let ?d = "drop 10 s"
  let ?j = "takeWhile is_decimal ?d"
  let ?d2 = "dropWhile is_decimal ?d"
  from \<open>?L\<close> have p: "take 10 s = ascii ''msgctxt \"#''"
    and j: "?j \<noteq> []" and a: "after_id ?j ?d2 = Some (i, t, r)"
    by (auto simp: match_pattern_after_id lits_msgctxt lazy_plus_after_id split: if_splits)
  have s: "s = ascii ''msgctxt \"#'' @ ?j @ ?d2"
    using take_eq_appendD [OF p] by simp
  have dec: "list_all is_decimal ?j"
    by (auto simp: list_all_iff dest: set_takeWhileD)
  from a consider
      (lf) "take 2 ?d2 = [34, 10]"
           "lits (ascii ''msgid \"'') (greedy_star_dot (closing ?j) []) (drop 2 ?d2) = Some (i, t, r)"
    | (crlf) "take 3 ?d2 = [34, 13, 10]"
           "lits (ascii ''msgid \"'') (greedy_star_dot (closing ?j) []) (drop 3 ?d2) = Some (i, t, r)"
    by (auto simp: after_id_eq split: if_splits)
  then show ?R
  proof cases
    case lf
    from lf(2) obtain c2 where i: "i = ?j"
      and t: "drop 2 ?d2 = ascii ''msgid \"'' @ t @ [34] @ c2 @ r" "opt_cr c2" "at_eol r"
             "10 \<notin> set t"
      unfolding msgid_tail by blast
    from take_eq_appendD [OF lf(1)] t(1)
    have "?d2 = [34] @ [] @ [10] @ ascii ''msgid \"'' @ t @ [34] @ c2 @ r" by simp
    with s have "s = ascii ''msgctxt \"#'' @ ?j @ [34] @ [] @ [10]
                       @ ascii ''msgid \"'' @ t @ [34] @ c2 @ r" by simp
    with i j dec t show ?thesis unfolding record_at_def opt_cr_def by blast
  next
    case crlf
    from crlf(2) obtain c2 where i: "i = ?j"
      and t: "drop 3 ?d2 = ascii ''msgid \"'' @ t @ [34] @ c2 @ r" "opt_cr c2" "at_eol r"
             "10 \<notin> set t"
      unfolding msgid_tail by blast
    from take_eq_appendD [OF crlf(1)] t(1)
    have "?d2 = [34] @ [13] @ [10] @ ascii ''msgid \"'' @ t @ [34] @ c2 @ r" by simp
    with s have "s = ascii ''msgctxt \"#'' @ ?j @ [34] @ [13] @ [10]
                       @ ascii ''msgid \"'' @ t @ [34] @ c2 @ r" by simp
    with i j dec t show ?thesis unfolding record_at_def opt_cr_def by blast
  qed
next
  assume ?R
  then obtain c1 c2 where
    s: "s = ascii ''msgctxt \"#'' @ i @ [34] @ c1 @ [10] @ ascii ''msgid \"'' @ t @ [34] @ c2 @ r"
    and i: "i \<noteq> []" "list_all is_decimal i" and c: "opt_cr c1" "opt_cr c2"
    and r: "at_eol r" and t: "10 \<notin> set t"
    unfolding record_at_def by blast
  let ?s2 = "ascii ''msgid \"'' @ t @ [34] @ c2 @ r"
  have tail: "lits (ascii ''msgid \"'') (greedy_star_dot (closing i) []) ?s2 = Some (i, t, r)"
    unfolding msgid_tail using c r t by blast
  have tw: "takeWhile is_decimal (i @ 34 # c1 @ 10 # ?s2) = i"
    and dw: "dropWhile is_decimal (i @ 34 # c1 @ 10 # ?s2) = 34 # c1 @ 10 # ?s2"
    using i(2) not_decimal_34 by (simp_all add: list_all_iff)
  have "after_id i (34 # c1 @ 10 # ?s2) = Some (i, t, r)"
    using c(1) tail unfolding opt_cr_def by (auto simp: after_id_eq)
  with tw dw i(1) have "lazy_plus_digits after_id (i @ 34 # c1 @ 10 # ?s2) = Some (i, t, r)"
    by (simp add: lazy_plus_after_id)
  then show ?L unfolding s match_pattern_after_id
    by (simp add: lits_msgctxt len_msgctxt)
qed

lemma msgctxt_id_iff:
  "msgctxt_id l = Some i \<longleftrightarrow>
     l = ascii ''msgctxt \"#'' @ i @ [34] \<and> i \<noteq> [] \<and> list_all is_decimal i"
  (is "?L \<longleftrightarrow> ?R")
proof
  assume ?L
  then have p: "take 10 l = ascii ''msgctxt \"#''" and n: "10 < length l" and q: "last l = 34"
    and i: "i = butlast (drop 10 l)" "i \<noteq> []" "list_all is_decimal i"
    by (auto simp: msgctxt_id_def Let_def split: if_splits)
  from n have "drop 10 l \<noteq> []" by simp
  then have "butlast (drop 10 l) @ [last (drop 10 l)] = drop 10 l"
    by (rule append_butlast_last_id)
  moreover from n have "last (drop 10 l) = last l" by simp
  ultimately have d: "drop 10 l = i @ [34]" using i(1) q by simp
  from take_eq_appendD [OF p] have "l = ascii ''msgctxt \"#'' @ i @ [34]" unfolding d .
  with i(2,3) show ?R by blast
next
  assume ?R
  then show ?L by (simp add: msgctxt_id_def Let_def len_msgctxt butlast_append)
qed

lemma msgid_string_iff:
  "msgid_string l = Some t \<longleftrightarrow> l = ascii ''msgid \"'' @ t @ [34]"
  (is "?L \<longleftrightarrow> ?R")
proof
  assume ?L
  then have p: "take 7 l = ascii ''msgid \"''" and n: "7 < length l" and q: "last l = 34"
    and t: "t = butlast (drop 7 l)"
    by (auto simp: msgid_string_def split: if_splits)
  from n have "drop 7 l \<noteq> []" by simp
  then have "butlast (drop 7 l) @ [last (drop 7 l)] = drop 7 l"
    by (rule append_butlast_last_id)
  moreover from n have "last (drop 7 l) = last l" by simp
  ultimately have d: "drop 7 l = t @ [34]" using t q by simp
  from take_eq_appendD [OF p] show ?R unfolding d .
next
  assume ?R
  then show ?L by (simp add: msgid_string_def len_msgid butlast_append)
qed

lemma no_nl_msgctxt: "10 \<notin> set (ascii ''msgctxt \"#'')"
  by (simp add: ascii_def)

lemma no_nl_msgid: "10 \<notin> set (ascii ''msgid \"'')"
  by (simp add: ascii_def)

lemma no_nl_digits: "list_all is_decimal i \<Longrightarrow> 10 \<notin> set i"
  using not_decimal_10 by (auto simp: list_all_iff)

lemma record_at_lines:
  "record_at s i t r \<longleftrightarrow>
     (\<exists>s'. dropWhile not_nl s = 10 # s'
        \<and> msgctxt_id (strip_cr (takeWhile not_nl s)) = Some i
        \<and> msgid_string (strip_cr (takeWhile not_nl s')) = Some t
        \<and> r = dropWhile not_nl s')"
  (is "?L \<longleftrightarrow> ?R")
proof
  assume ?L
  then obtain c1 c2 where
    s: "s = ascii ''msgctxt \"#'' @ i @ [34] @ c1 @ [10] @ ascii ''msgid \"'' @ t @ [34] @ c2 @ r"
    and i: "i \<noteq> []" "list_all is_decimal i" and c: "opt_cr c1" "opt_cr c2"
    and r: "at_eol r" and t: "10 \<notin> set t"
    unfolding record_at_def by blast
  let ?l0 = "ascii ''msgctxt \"#'' @ i @ [34] @ c1"
  let ?l1 = "ascii ''msgid \"'' @ t @ [34] @ c2"
  have n0: "10 \<notin> set ?l0"
    using no_nl_msgctxt no_nl_digits [OF i(2)] opt_cr_no_nl [OF c(1)] by simp
  have n1: "10 \<notin> set ?l1"
    using no_nl_msgid t opt_cr_no_nl [OF c(2)] by simp
  have s0: "s = ?l0 @ (10 # ?l1 @ r)" using s by simp
  have "at_eol (10 # ?l1 @ r)" by (simp add: at_eol_def)
  from takeWhile_dropWhile_line [OF n0 this]
  have tw0: "takeWhile not_nl s = ?l0" and dw0: "dropWhile not_nl s = 10 # ?l1 @ r"
    unfolding s0 by simp_all
  from takeWhile_dropWhile_line [OF n1 r]
  have tw1: "takeWhile not_nl (?l1 @ r) = ?l1" and dw1: "dropWhile not_nl (?l1 @ r) = r"
    by simp_all
  have "strip_cr ?l0 = ascii ''msgctxt \"#'' @ i @ [34]"
    using strip_cr_quote [OF c(1), of "ascii ''msgctxt \"#'' @ i"] by simp
  then have m0: "msgctxt_id (strip_cr ?l0) = Some i" using i by (simp add: msgctxt_id_iff)
  have "strip_cr ?l1 = ascii ''msgid \"'' @ t @ [34]"
    using strip_cr_quote [OF c(2), of "ascii ''msgid \"'' @ t"] by simp
  then have m1: "msgid_string (strip_cr ?l1) = Some t" by (simp add: msgid_string_iff)
  show ?R using dw0 tw0 m0 tw1 m1 dw1 by simp
next
  assume ?R
  then obtain s' where dw: "dropWhile not_nl s = 10 # s'"
    and m0: "msgctxt_id (strip_cr (takeWhile not_nl s)) = Some i"
    and m1: "msgid_string (strip_cr (takeWhile not_nl s')) = Some t"
    and r: "r = dropWhile not_nl s'" by blast
  obtain c1 where c1: "opt_cr c1"
    and l0: "takeWhile not_nl s = strip_cr (takeWhile not_nl s) @ c1"
    using strip_cr_decomp by blast
  obtain c2 where c2: "opt_cr c2"
    and l1: "takeWhile not_nl s' = strip_cr (takeWhile not_nl s') @ c2"
    using strip_cr_decomp by blast
  from m0 have e0: "strip_cr (takeWhile not_nl s) = ascii ''msgctxt \"#'' @ i @ [34]"
    and i: "i \<noteq> []" "list_all is_decimal i" by (simp_all add: msgctxt_id_iff)
  from m1 have e1: "strip_cr (takeWhile not_nl s') = ascii ''msgid \"'' @ t @ [34]"
    by (simp add: msgid_string_iff)
  have a: "takeWhile not_nl s = ascii ''msgctxt \"#'' @ i @ [34] @ c1"
    using l0 unfolding e0 by simp
  have b: "takeWhile not_nl s' = ascii ''msgid \"'' @ t @ [34] @ c2"
    using l1 unfolding e1 by simp
  have s1: "s = takeWhile not_nl s @ 10 # s'" by (metis dw takeWhile_dropWhile_id)
  have s2: "s' = takeWhile not_nl s' @ r" unfolding r by simp
  have "s = takeWhile not_nl s @ 10 # takeWhile not_nl s' @ r" using s1 s2 by metis
  then have s: "s = ascii ''msgctxt \"#'' @ i @ [34] @ c1 @ [10]
                      @ ascii ''msgid \"'' @ t @ [34] @ c2 @ r"
    unfolding a b by simp
  have "set t \<subseteq> set (takeWhile not_nl s')" unfolding b by auto
  then have "10 \<notin> set t" by (auto dest: set_takeWhileD)
  with s i c1 c2 r show ?L unfolding record_at_def by auto
qed

definition line_pair :: "py_str \<Rightarrow> py_str \<Rightarrow> (py_str \<times> py_str) list" where
  "line_pair l0 l1 =
     (case (msgctxt_id (strip_cr l0), msgid_string (strip_cr l1)) of
        (Some i, Some s) \<Rightarrow> [(i, s)]
      | _ \<Rightarrow> [])"

lemma records_Cons2: "records (l0 # l1 # ls) = line_pair l0 l1 @ records (l1 # ls)"
  by (simp add: line_pair_def)

lemma hd_split_lines: "hd (split_lines s) = takeWhile not_nl s"
  by (subst split_lines_tw) simp

lemma records_split_lines:
  "records (split_lines s) =
     (case dropWhile not_nl s of
        [] \<Rightarrow> []
      | x # s' \<Rightarrow> line_pair (takeWhile not_nl s) (takeWhile not_nl s') @ records (split_lines s'))"
proof (cases "dropWhile not_nl s")
  case Nil
  have "split_lines s = [takeWhile not_nl s]"
    using split_lines_tw [of s] unfolding Nil by simp
  then show ?thesis unfolding Nil by simp
next
  case (Cons x s')
  obtain ls where ls: "split_lines s' = takeWhile not_nl s' # ls"
    using hd_split_lines [of s'] by (cases "split_lines s'") auto
  have s: "split_lines s = takeWhile not_nl s # split_lines s'"
    using split_lines_tw [of s] unfolding Cons by simp
  show ?thesis unfolding Cons s by (simp only: records_Cons2 list.case ls)
qed

lemma line_pair_match:
  "dropWhile not_nl s = x # s' \<Longrightarrow>
   line_pair (takeWhile not_nl s) (takeWhile not_nl s') =
     (case match_pattern s of None \<Rightarrow> [] | Some (i, t, r) \<Rightarrow> [(i, t)])"
proof -
  assume dw: "dropWhile not_nl s = x # s'"
  then have x: "x = 10" using hd_dropWhile [of not_nl s] by simp
  show ?thesis
  proof (cases "match_pattern s")
    case None
    have "\<not> (\<exists>i t. msgctxt_id (strip_cr (takeWhile not_nl s)) = Some i
               \<and> msgid_string (strip_cr (takeWhile not_nl s')) = Some t)"
    proof
      assume "\<exists>i t. msgctxt_id (strip_cr (takeWhile not_nl s)) = Some i
               \<and> msgid_string (strip_cr (takeWhile not_nl s')) = Some t"
      then obtain i t where "msgctxt_id (strip_cr (takeWhile not_nl s)) = Some i"
        "msgid_string (strip_cr (takeWhile not_nl s')) = Some t" by blast
      with dw x have "record_at s i t (dropWhile not_nl s')" unfolding record_at_lines by blast
      with None show False by (simp add: match_pattern_iff [symmetric])
    qed
    with None show ?thesis by (auto simp: line_pair_def split: option.splits)
  next
    case (Some m)
    obtain i t r where m: "m = (i, t, r)" by (cases m)
    with Some have "record_at s i t r" by (simp add: match_pattern_iff)
    with dw have "msgctxt_id (strip_cr (takeWhile not_nl s)) = Some i"
      "msgid_string (strip_cr (takeWhile not_nl s')) = Some t"
      unfolding record_at_lines by auto
    with Some m show ?thesis by (simp add: line_pair_def)
  qed
qed

lemma msgid_line_not_msgctxt:
  "msgid_string l = Some t \<Longrightarrow> msgctxt_id l = None"
proof -
  assume "msgid_string l = Some t"
  then have "l = ascii ''msgid \"'' @ t @ [34]" by (simp add: msgid_string_iff)
  then have A: "l ! 3 = 105" by (simp add: ascii_def)
  have B: "ascii ''msgctxt \"#'' ! 3 = 99" by (simp add: ascii_def)
  have "take 10 l \<noteq> ascii ''msgctxt \"#''"
  proof
    assume eq: "take 10 l = ascii ''msgctxt \"#''"
    have "l ! 3 = take 10 l ! 3" by simp
    also have "\<dots> = ascii ''msgctxt \"#'' ! 3" unfolding eq ..
    finally show False using A B by simp
  qed
  then show ?thesis by (simp add: msgctxt_id_def Let_def)
qed

lemma tl_split_lines:
  "tl (split_lines s) = (case dropWhile not_nl s of [] \<Rightarrow> [] | x # s' \<Rightarrow> split_lines s')"
  by (subst split_lines_tw) simp

lemma records_tl_split_lines:
  "records (tl (split_lines s)) =
     (case dropWhile not_nl s of [] \<Rightarrow> [] | x # s' \<Rightarrow> records (split_lines s'))"
proof (cases "dropWhile not_nl s")
  case Nil
  show ?thesis unfolding tl_split_lines Nil by simp
next
  case (Cons x s')
  show ?thesis unfolding tl_split_lines Cons by simp
qed

lemma match_needs_newline:
  "dropWhile not_nl s = [] \<Longrightarrow> match_pattern s = None"
proof (cases "match_pattern s")
  case (Some m)
  assume n: "dropWhile not_nl s = []"
  obtain i t r where "m = (i, t, r)" by (cases m)
  with Some have "record_at s i t r" by (simp add: match_pattern_iff)
  then obtain s' where "dropWhile not_nl s = 10 # s'" unfolding record_at_lines by blast
  then have False unfolding n by simp
  then show ?thesis ..
qed simp

lemma records_match:
  "records (split_lines s) =
     (case match_pattern s of None \<Rightarrow> [] | Some (i, t, r) \<Rightarrow> [(i, t)])
     @ records (tl (split_lines s))"
proof (cases "dropWhile not_nl s")
  case Nil
  from match_needs_newline [OF Nil] have m: "match_pattern s = None" .
  show ?thesis
    unfolding records_split_lines [of s] records_tl_split_lines [of s] Nil m by simp
next
  case (Cons x s')
  show ?thesis
    unfolding records_split_lines [of s] records_tl_split_lines [of s] Cons
    by (simp add: line_pair_match [OF Cons])
qed

lemma record_at_prefix:
  "record_at s i t r \<Longrightarrow> \<exists>pre. s = pre @ r \<and> pre \<noteq> [] \<and> last pre \<noteq> 10"
proof -
  assume "record_at s i t r"
  then obtain c1 c2 where
    s: "s = ascii ''msgctxt \"#'' @ i @ [34] @ c1 @ [10] @ ascii ''msgid \"'' @ t @ [34] @ c2 @ r"
    and c: "opt_cr c2"
    unfolding record_at_def by blast
  let ?pre = "(ascii ''msgctxt \"#'' @ i @ [34] @ c1 @ [10] @ ascii ''msgid \"'' @ t) @ [34] @ c2"
  have "s = ?pre @ r" using s by simp
  moreover have "last ?pre \<noteq> 10" using c unfolding opt_cr_def last_append by auto
  moreover have "?pre \<noteq> []" by simp
  ultimately show ?thesis by blast
qed

lemma records_after_match:
  assumes "match_pattern s = Some (i, t, r)"
  shows "records (tl (split_lines s)) = records (tl (split_lines r))"
proof -
  from assms have "record_at s i t r" by (simp add: match_pattern_iff)
  then obtain s' where dw: "dropWhile not_nl s = 10 # s'"
    and m1: "msgid_string (strip_cr (takeWhile not_nl s')) = Some t"
    and r: "r = dropWhile not_nl s'"
    unfolding record_at_lines by blast
  have "match_pattern s' = None"
  proof (cases "match_pattern s'")
    case (Some m)
    obtain i' t' r' where "m = (i', t', r')" by (cases m)
    with Some have "record_at s' i' t' r'" by (simp add: match_pattern_iff)
    then have "msgctxt_id (strip_cr (takeWhile not_nl s')) = Some i'"
      unfolding record_at_lines by blast
    with msgid_line_not_msgctxt [OF m1] show ?thesis by simp
  qed simp
  then have D: "records (split_lines s') = records (tl (split_lines s'))"
    by (simp add: records_match)
  have e: "dropWhile not_nl r = r" unfolding r by (simp add: at_eol_dropWhile)
  have A: "records (tl (split_lines r)) =
             (case r of [] \<Rightarrow> [] | x # s'' \<Rightarrow> records (split_lines s''))"
    unfolding records_tl_split_lines e ..
  have B: "records (tl (split_lines s')) =
             (case r of [] \<Rightarrow> [] | x # s'' \<Rightarrow> records (split_lines s''))"
    unfolding records_tl_split_lines r ..
  have C: "records (tl (split_lines s)) = records (split_lines s')"
    unfolding records_tl_split_lines dw by simp
  show ?thesis unfolding C D B A ..
qed

lemma tl_split_lines_Cons:
  "tl (split_lines (c # s)) = (if c = 10 then split_lines s else tl (split_lines s))"
  by (cases "split_lines s") simp_all

lemma findall_from_records:
  "pos \<le> length txt0 \<Longrightarrow>
   findall_from txt0 pos =
     records (if at_bol txt0 pos then split_lines (drop pos txt0)
              else tl (split_lines (drop pos txt0)))"
proof (induction "length txt0 - pos" arbitrary: pos rule: less_induct)
  case less
  let ?s = "drop pos txt0"
  let ?m = "if at_bol txt0 pos then match_pattern ?s else None"
  have pos: "\<not> length txt0 < pos" using less.prems by simp
  show ?case
  proof (cases ?m)
    case None
    have goal: "records (if at_bol txt0 pos then split_lines ?s else tl (split_lines ?s))
                = records (tl (split_lines ?s))"
      using None by (auto simp: records_match split: if_splits)
    have step: "findall_from txt0 pos = findall_from txt0 (pos + 1)"
      using None pos by (subst findall_from.simps) simp
    show ?thesis
    proof (cases ?s)
      case Nil
      then have "pos = length txt0" using less.prems by simp
      then have "findall_from txt0 (pos + 1) = []" by (subst findall_from.simps) simp
      with Nil step goal show ?thesis by simp
    next
      case (Cons c s1)
      then have lt: "pos < length txt0" using less.prems by (cases "pos = length txt0") auto
      have "drop (pos + 1) txt0 = tl (drop pos txt0)" by (simp add: drop_Suc tl_drop)
      then have d: "drop (pos + 1) txt0 = s1" unfolding Cons by simp
      have c: "txt0 ! pos = c" using hd_drop_conv_nth [OF lt] unfolding Cons by simp
      have b: "at_bol txt0 (pos + 1) \<longleftrightarrow> c = 10" using c by (simp add: at_bol_def)
      have "findall_from txt0 (pos + 1) =
              records (if at_bol txt0 (pos + 1) then split_lines (drop (pos + 1) txt0)
                       else tl (split_lines (drop (pos + 1) txt0)))"
        using lt by (intro less.hyps) auto
      also have "\<dots> = records (tl (split_lines (c # s1)))"
        unfolding d b tl_split_lines_Cons by simp
      finally show ?thesis using step goal Cons by simp
    qed
  next
    case (Some m)
    obtain i t r where m: "m = (i, t, r)" by (cases m)
    from Some m have bol: "at_bol txt0 pos" and mp: "match_pattern ?s = Some (i, t, r)"
      by (auto split: if_splits)
    from mp have "record_at ?s i t r" by (simp add: match_pattern_iff)
    from record_at_prefix [OF this] obtain pre where
      pre: "?s = pre @ r" "pre \<noteq> []" "last pre \<noteq> 10" by blast
    let ?stop = "length txt0 - length r"
    have len: "length ?s = length pre + length r" unfolding pre(1) by simp
    then have ls: "length txt0 = pos + length pre + length r" using less.prems by simp
    then have stop: "?stop = pos + length pre" by simp
    with pre(2) have gt: "?stop \<noteq> pos" "pos < ?stop" "?stop \<le> length txt0" by auto
    have "drop ?stop txt0 = drop (length pre) (drop pos txt0)"
      unfolding stop by (simp add: add.commute)
    then have dr: "drop ?stop txt0 = r" unfolding pre(1) by simp
    have "txt0 ! (pos + (length pre - 1)) = drop pos txt0 ! (length pre - 1)"
      using less.prems by simp
    also have "\<dots> = last pre" unfolding pre(1) using pre(2)
      by (simp add: nth_append last_conv_nth)
    finally have "txt0 ! (pos + (length pre - 1)) \<noteq> 10" using pre(3) by simp
    moreover have "?stop - 1 = pos + (length pre - 1)" using stop pre(2) by (cases pre) auto
    ultimately have "txt0 ! (?stop - 1) \<noteq> 10" by simp
    then have nb: "\<not> at_bol txt0 ?stop" using gt by (simp add: at_bol_def)
    have step: "findall_from txt0 pos = (i, t) # findall_from txt0 ?stop"
      using Some m pos gt(1) by (subst findall_from.simps) (simp add: Let_def)
    have "findall_from txt0 ?stop =
            records (if at_bol txt0 ?stop then split_lines (drop ?stop txt0)
                     else tl (split_lines (drop ?stop txt0)))"
      using gt ls by (intro less.hyps) auto
    also have "\<dots> = records (tl (split_lines r))" using nb dr by simp
    also have "\<dots> = records (tl (split_lines ?s))" using records_after_match [OF mp] by simp
    finally show ?thesis using step bol mp by (simp add: records_match)
  qed
qed

theorem findall_records: "findall strings_po = records (split_lines strings_po)"
  using findall_from_records [of 0 strings_po] by (simp add: findall_def at_bol_def)

definition digit_of :: "nat \<Rightarrow> int" where
  "digit_of c = (case decimal_value c of None \<Rightarrow> 0 | Some d \<Rightarrow> int d)"

definition decimal_number :: "py_str \<Rightarrow> int" where
  "decimal_number ds = foldl (\<lambda>a c. 10 * a + digit_of c) 0 ds"

definition catalog_mapping :: "py_str \<Rightarrow> (py_str \<rightharpoonup> int)" where
  "catalog_mapping strings_po =
     foldl (\<lambda>m (i, s). if s \<noteq> [] then m(s \<mapsto> decimal_number i) else m)
       Map.empty (records (split_lines strings_po))"

text \<open>
  \<open>ids_within_limit\<close> holds of a catalog when no record with a non-empty string has an id
  of more digits than \<open>int\<close> converts.  \<open>long_id_catalog\<close> is a catalog of one record
  whose id has 4301 digits.
\<close>

definition ids_within_limit :: "py_str \<Rightarrow> bool" where
  "ids_within_limit strings_po =
     list_all (\<lambda>(i, s). s = [] \<or> length i \<le> int_max_str_digits)
       (records (split_lines strings_po))"

definition example_catalog :: py_str where
  "example_catalog =
     ascii ''msgctxt \"#100\"'' @ [10] @ ascii ''msgid \"Play\"'' @ [10] @
     ascii ''msgctxt \"#101\"'' @ [10] @ ascii ''msgid \"\"'' @ [10] @
     ascii ''msgctxt \"#102\"'' @ [10] @ ascii ''msgid \"Stop\"'' @ [10]"

definition long_id_catalog :: py_str where
  "long_id_catalog =
     ascii ''msgctxt \"#'' @ replicate 4301 49 @ [34] @ [10] @
     ascii ''msgid \"'' @ ascii ''Play'' @ [34]"

lemma digits_value_decimal:
  "list_all is_decimal ds \<Longrightarrow>
   digits_value a ds = Some (foldl (\<lambda>a c. 10 * a + digit_of c) a ds)"
  by (induction ds arbitrary: a) (auto simp: is_decimal_def digit_of_def)

lemma py_int_decimal:
  "ds \<noteq> [] \<Longrightarrow> list_all is_decimal ds \<Longrightarrow>
   py_int ds = (if int_max_str_digits < length ds then Inl ValueError
                else Inr (decimal_number ds))"
  by (simp add: py_int_def decimal_number_def digits_value_decimal)

lemma line_pair_ids:
  "(i, t) \<in> set (line_pair l0 l1) \<Longrightarrow> i \<noteq> [] \<and> list_all is_decimal i"
proof -
  assume a: "(i, t) \<in> set (line_pair l0 l1)"
  then have "msgctxt_id (strip_cr l0) = Some i"
    by (cases "msgctxt_id (strip_cr l0)"; cases "msgid_string (strip_cr l1)")
       (simp_all add: line_pair_def)
  then show ?thesis unfolding msgctxt_id_iff by blast
qed

lemma records_ids:
  "(i, t) \<in> set (records ls) \<Longrightarrow> i \<noteq> [] \<and> list_all is_decimal i"
proof (induction ls rule: records.induct)
  case (1 l0 l1 ls)
  then show ?case unfolding records_Cons2 using line_pair_ids by auto
qed simp_all

lemma dict_comprehension_limit:
  "(\<And>i t. (i, t) \<in> set ps \<Longrightarrow> i \<noteq> [] \<and> list_all is_decimal i) \<Longrightarrow>
   dict_comprehension ps d =
     (if list_all (\<lambda>(i, s). s = [] \<or> length i \<le> int_max_str_digits) ps
      then Inr (foldl (\<lambda>d (i, s). if s \<noteq> [] then AList.update s (decimal_number i) d else d)
                  d ps)
      else Inl ValueError)"
proof (induction ps arbitrary: d)
  case Nil show ?case by simp
next
  case (Cons p ps)
  obtain i s where p: "p = (i, s)" by (cases p)
  have "i \<noteq> []" "list_all is_decimal i" using Cons.prems [of i s] p by auto
  then have i: "py_int i = (if int_max_str_digits < length i then Inl ValueError
                            else Inr (decimal_number i))" by (rule py_int_decimal)
  have "\<And>i t. (i, t) \<in> set ps \<Longrightarrow> i \<noteq> [] \<and> list_all is_decimal i"
    using Cons.prems by auto
  from Cons.IH [OF this] show ?case unfolding p by (simp add: i)
qed

lemma map_of_foldl_update:
  "map_of (foldl (\<lambda>d (i, s). if s \<noteq> [] then AList.update s (f i) d else d) d ps) =
   foldl (\<lambda>m (i, s). if s \<noteq> [] then m(s \<mapsto> f i) else m) (map_of d) ps"
  by (induction ps arbitrary: d) (auto simp: update_conv' split: prod.splits)

lemma distinct_foldl_update:
  "distinct (map fst d) \<Longrightarrow>
   distinct (map fst (foldl (\<lambda>d (i, s). if s \<noteq> [] then AList.update s (f i) d else d) d ps))"
  by (induction ps arbitrary: d) (auto simp: distinct_update split: prod.splits)

lemma parse_strings_po_records:
  "parse_strings_po strings_po =
     (if ids_within_limit strings_po
      then Inr (foldl (\<lambda>d (i, s). if s \<noteq> [] then AList.update s (decimal_number i) d else d) []
                  (records (split_lines strings_po)))
      else Inl ValueError)"
  unfolding parse_strings_po_def findall_records ids_within_limit_def
  by (rule dict_comprehension_limit) (rule records_ids)

lemma records_example:
  "records (split_lines example_catalog) =
     [(ascii ''100'', ascii ''Play''), (ascii ''101'', []), (ascii ''102'', ascii ''Stop'')]"
proof -
  have sl: "split_lines example_catalog =
              [ascii ''msgctxt \"#100\"'', ascii ''msgid \"Play\"'',
               ascii ''msgctxt \"#101\"'', ascii ''msgid \"\"'',
               ascii ''msgctxt \"#102\"'', ascii ''msgid \"Stop\"'', []]"
    by (simp add: example_catalog_def ascii_def)
  show ?thesis
    unfolding sl
    by (simp add: ascii_def strip_cr_def msgctxt_id_def msgid_string_def Let_def
          is_decimal_def decimal_value_def nd_blocks_def)
qed

lemma parse_example:
  "parse_strings_po example_catalog = Inr [(ascii ''Play'', 100), (ascii ''Stop'', 102)]"
  unfolding parse_strings_po_def findall_records records_example
  by (simp add: ascii_def py_int_def decimal_value_def nd_blocks_def int_max_str_digits_def)

lemma split_lines_append: "10 \<notin> set a \<Longrightarrow> split_lines (a @ 10 # b) = a # split_lines b"
  by (induction a) auto

lemma split_lines_single: "10 \<notin> set a \<Longrightarrow> split_lines a = [a]"
  by (induction a) auto

lemma records_one_record:
  assumes "i \<noteq> []" "list_all is_decimal i" "10 \<notin> set t"
  shows "records (split_lines (ascii ''msgctxt \"#'' @ i @ [34] @ [10] @
                               ascii ''msgid \"'' @ t @ [34])) = [(i, t)]"
proof -
  let ?l0 = "ascii ''msgctxt \"#'' @ i @ [34]"
  let ?l1 = "ascii ''msgid \"'' @ t @ [34]"
  have n0: "10 \<notin> set ?l0" using no_nl_msgctxt no_nl_digits [OF assms(2)] by simp
  have n1: "10 \<notin> set ?l1" using no_nl_msgid assms(3) by simp
  have "ascii ''msgctxt \"#'' @ i @ [34] @ [10] @ ascii ''msgid \"'' @ t @ [34] = ?l0 @ 10 # ?l1"
    by simp
  then have sl: "split_lines (ascii ''msgctxt \"#'' @ i @ [34] @ [10] @
                               ascii ''msgid \"'' @ t @ [34]) = [?l0, ?l1]"
    using split_lines_append [OF n0, of ?l1] split_lines_single [OF n1] by simp
  have s0: "strip_cr ?l0 = ?l0" by (simp add: strip_cr_def)
  have s1: "strip_cr ?l1 = ?l1" by (simp add: strip_cr_def)
  have m0: "msgctxt_id ?l0 = Some i" unfolding msgctxt_id_iff using assms by simp
  have m1: "msgid_string ?l1 = Some t" unfolding msgid_string_iff by simp
  show ?thesis unfolding sl records_Cons2 line_pair_def s0 s1 m0 m1 by simp
qed

lemma is_decimal_49: "is_decimal 49"
  by (simp add: is_decimal_def decimal_value_def nd_blocks_def)

lemma records_long_id:
  "records (split_lines long_id_catalog) = [(replicate 4301 49, ascii ''Play'')]"
  unfolding long_id_catalog_def
  by (rule records_one_record) (simp_all add: list_all_iff is_decimal_49 ascii_def)

text \<open>
  Claim C2, as stated, fails.  The catalog \<open>long_id_catalog\<close> holds one pair of consecutive
  lines \<^verbatim>\<open>msgctxt "#<id>"\<close> / \<^verbatim>\<open>msgid "Play"\<close>, so the mapping of the specification takes
  \<open>Play\<close> to the id; the parser produces no mapping: \<open>int\<close> raises \<open>ValueError\<close> on the 4301
  digits of the id.
\<close>

theorem parse_strings_po_long_id:
  "parse_strings_po long_id_catalog = Inl ValueError
   \<and> catalog_mapping long_id_catalog =
       [ascii ''Play'' \<mapsto> decimal_number (replicate 4301 49)]"
  unfolding parse_strings_po_records ids_within_limit_def catalog_mapping_def records_long_id
  by (simp add: int_max_str_digits_def ascii_def)

text \<open>
  Claim C2, amended.  For every catalog text in which no record with a non-empty string
  has an id of more than 4300 digits, the parser returns, and the dictionary it returns
  is exactly the mapping the specification describes: the strings of the consecutive-line
  pairs \<^verbatim>\<open>msgctxt "#<id>"\<close> / \<^verbatim>\<open>msgid "<string>"\<close> with a non-empty string, each taken to
  its id.  For every other catalog text the parser raises \<open>ValueError\<close>.  On the catalog
  with the records #100 "Play", #101 "" and #102 "Stop" the result is
  \<open>{"Play": 100, "Stop": 102}\<close>.
\<close>

theorem parse_strings_po_mapping:
  "(ids_within_limit strings_po \<longrightarrow>
      (\<exists>d. parse_strings_po strings_po = Inr d \<and> distinct (map fst d)
            \<and> map_of d = catalog_mapping strings_po))
   \<and> (\<not> ids_within_limit strings_po \<longrightarrow> parse_strings_po strings_po = Inl ValueError)
   \<and> parse_strings_po example_catalog = Inr [(ascii ''Play'', 100), (ascii ''Stop'', 102)]"
proof (intro conjI impI)
  assume ok: "ids_within_limit strings_po"
  let ?d = "foldl (\<lambda>d (i, s). if s \<noteq> [] then AList.update s (decimal_number i) d else d) []
              (records (split_lines strings_po))"
  have "parse_strings_po strings_po = Inr ?d"
    using ok by (simp add: parse_strings_po_records)
  moreover have "distinct (map fst ?d)" by (rule distinct_foldl_update) simp
  moreover have "map_of ?d = catalog_mapping strings_po"
    unfolding catalog_mapping_def map_of_foldl_update by simp
  ultimately show "\<exists>d. parse_strings_po strings_po = Inr d \<and> distinct (map fst d)
        \<and> map_of d = catalog_mapping strings_po" by blast
next
  assume "\<not> ids_within_limit strings_po"
  then show "parse_strings_po strings_po = Inl ValueError"
    by (simp add: parse_strings_po_records)
next
  show "parse_strings_po example_catalog = Inr [(ascii ''Play'', 100), (ascii ''Stop'', 102)]"
    by (rule parse_example)
qed

theorem parse_strings_po_mapping_witness:
  "ids_within_limit example_catalog
   \<and> catalog_mapping example_catalog = map_of [(ascii ''Play'', 100), (ascii ''Stop'', 102)]
   \<and> \<not> ids_within_limit long_id_catalog
   \<and> parse_strings_po long_id_catalog = Inl ValueError"
proof -
  have ok: "ids_within_limit example_catalog"
    unfolding ids_within_limit_def records_example
    by (simp add: int_max_str_digits_def ascii_def)
  have no: "\<not> ids_within_limit long_id_catalog"
    unfolding ids_within_limit_def records_long_id
    by (simp add: int_max_str_digits_def ascii_def)
  from parse_strings_po_mapping [of example_catalog] ok
  have "catalog_mapping example_catalog = map_of [(ascii ''Play'', 100), (ascii ''Stop'', 102)]"
    by auto
  moreover from parse_strings_po_mapping [of long_id_catalog] no
  have "parse_strings_po long_id_catalog = Inl ValueError" by blast
  ultimately show ?thesis using ok no by blast
qed

subsection \<open>The values of the cache record\<close>

text \<open>
  The Python values the service handles: integers, strings and dictionaries.  A
  dictionary is the list of its items in insertion order; its keys are distinct.
\<close>

datatype pyval =
    PyInt int
  | PyStr py_str
  | PyDict "(pyval \<times> pyval) list"

text \<open>
  \<open>obj[key]\<close> for a string key: a dictionary looks the key up and raises \<open>KeyError\<close> when
  it is missing; an integer cannot be subscripted and a string takes no string as an
  index, both raise \<open>TypeError\<close>.
\<close>

fun py_getitem :: "pyval \<Rightarrow> py_str \<Rightarrow> pyexc + pyval" where
  "py_getitem (PyDict items) key =
     (case map_of items (PyStr key) of None \<Rightarrow> Inl KeyError | Some v \<Rightarrow> Inr v)"
| "py_getitem (PyInt i) key = Inl TypeError"
| "py_getitem (PyStr s) key = Inl TypeError"

text \<open>A dictionary from strings to integers, as \<open>_parse_strings_po\<close> builds it.\<close>

definition strings_dict :: "(py_str \<times> int) list \<Rightarrow> pyval" where
  "strings_dict d = PyDict (map (\<lambda>(string, string_id). (PyStr string, PyInt string_id)) d)"

subsection \<open>gettext\<close>

text \<open>
  \<open>gettext\<close> looks the English string up in \<open>self._mapping\<close> and hands the id to
  \<open>ADDON.getLocalizedString\<close>, which belongs to the host and is a parameter here.  Only
  \<open>KeyError\<close> is turned into \<open>LocalizationError\<close>.  The host function takes an integer;
  any other argument raises \<open>TypeError\<close>.
\<close>

definition gettext ::
  "(int \<Rightarrow> pyexc + py_str) \<Rightarrow> pyval \<Rightarrow> py_str \<Rightarrow> pyexc + py_str" where
  "gettext getLocalizedString mapping en_string =
     (case py_getitem mapping en_string of
        Inl e \<Rightarrow>
          if e = KeyError
          then Inl (LocalizationError
                 (ascii ''Unable to find English string \"'' @ en_string
                  @ ascii ''\" in strings.po''))
          else Inl e
      | Inr string_id \<Rightarrow>
          (case string_id of
             PyInt i \<Rightarrow> getLocalizedString i
           | other \<Rightarrow> Inl TypeError))"

subsection \<open>debug\_exception\<close>




text \<open>
  Claim C7.  For every mapping from strings to integer ids held in memory and every
  English string: when the string is absent from the mapping, \<open>gettext\<close> raises
  \<open>LocalizationError\<close> with the message that quotes the string; when it is present,
  \<open>gettext\<close> returns what the host's \<open>getLocalizedString\<close> gives for the id the string is
  mapped to.
\<close>

theorem gettext_lookup:
  "gettext getLocalizedString (strings_dict d) en_string =
     (case map_of d en_string of
        None \<Rightarrow> Inl (LocalizationError
                  (ascii ''Unable to find English string \"'' @ en_string
                   @ ascii ''\" in strings.po''))
      | Some string_id \<Rightarrow> getLocalizedString string_id)"
proof -
  have "map_of (map (\<lambda>(string, string_id). (PyStr string, PyInt string_id)) d) (PyStr en_string)
          = map_option PyInt (map_of d en_string)"
    by (induction d) auto
  then show ?thesis
    by (simp add: gettext_def strings_dict_def split: option.splits)
qed

theorem gettext_lookup_witness:
  "gettext (\<lambda>i. Inr (str_int i)) (strings_dict [(ascii ''Play'', 100), (ascii ''Stop'', 102)])
     (ascii ''Stop'') = Inr (str_int 102)
   \<and> gettext (\<lambda>i. Inr (str_int i)) (strings_dict [(ascii ''Play'', 100), (ascii ''Stop'', 102)])
     (ascii ''NoSuchString'') =
       Inl (LocalizationError
              (ascii ''Unable to find English string \"NoSuchString\" in strings.po''))"
  using gettext_lookup [of "\<lambda>i. Inr (str_int i)" "[(ascii ''Play'', 100), (ascii ''Stop'', 102)]"
          "ascii ''Stop''"]
        gettext_lookup [of "\<lambda>i. Inr (str_int i)" "[(ascii ''Play'', 100), (ascii ''Stop'', 102)]"
          "ascii ''NoSuchString''"]
  by (simp add: ascii_def)




section \<open>Bytes, text and integers in the cache file\<close>

subsection \<open>UTF-8\<close>

text \<open>
  \<open>bytes.decode('utf-8')\<close> and \<open>str.encode('utf-8')\<close>.  The decoder accepts the shortest
  encoding of a code point only and nothing above U+10FFFF.  Its flag tells whether the
  code points U+D800 to U+DFFF are accepted: the strict decoder, which \<open>_load_strings_mapping\<close>
  applies to the catalog, rejects them; \<open>pickle\<close> encodes and decodes its strings with the
  error handler \<open>surrogatepass\<close>, which lets them through.  A failure is \<open>None\<close>; the
  caller turns it into \<open>UnicodeDecodeError\<close>.
\<close>

definition is_cont :: "byte \<Rightarrow> bool" where
  "is_cont b = (0x80 \<le> unat b \<and> unat b < 0xC0)"

fun utf8_decode_from :: "bool \<Rightarrow> byte list \<Rightarrow> py_str option" where
  "utf8_decode_from sp [] = Some []"
| "utf8_decode_from sp (b0 # bs) =
     (let x = unat b0 in
      if x < 0x80 then map_option ((#) x) (utf8_decode_from sp bs)
      else if 0xC2 \<le> x \<and> x < 0xE0 then
        (case bs of
           b1 # r \<Rightarrow>
             if is_cont b1
             then map_option ((#) ((x - 0xC0) * 64 + (unat b1 - 0x80))) (utf8_decode_from sp r)
             else None
         | _ \<Rightarrow> None)
      else if 0xE0 \<le> x \<and> x < 0xF0 then
        (case bs of
           b1 # b2 # r \<Rightarrow>
             (let c = (x - 0xE0) * 4096 + (unat b1 - 0x80) * 64 + (unat b2 - 0x80)
              in if is_cont b1 \<and> is_cont b2 \<and> 0x800 \<le> c
                    \<and> (sp \<or> \<not> (0xD800 \<le> c \<and> c < 0xE000))
                 then map_option ((#) c) (utf8_decode_from sp r)
                 else None)
         | _ \<Rightarrow> None)
      else if 0xF0 \<le> x \<and> x < 0xF5 then
        (case bs of
           b1 # b2 # b3 # r \<Rightarrow>
             (let c = (x - 0xF0) * 262144 + (unat b1 - 0x80) * 4096
                      + (unat b2 - 0x80) * 64 + (unat b3 - 0x80)
              in if is_cont b1 \<and> is_cont b2 \<and> is_cont b3 \<and> 0x10000 \<le> c \<and> c < 0x110000
                 then map_option ((#) c) (utf8_decode_from sp r)
                 else None)
         | _ \<Rightarrow> None)
      else None)"

declare utf8_decode_from.simps [simp del]

definition byte_of :: "nat \<Rightarrow> byte" where
  "byte_of n = of_nat n"

definition utf8_encode_char :: "nat \<Rightarrow> byte list" where
  "utf8_encode_char c =
     (if c < 0x80 then [byte_of c]
      else if c < 0x800 then [byte_of (0xC0 + c div 64), byte_of (0x80 + c mod 64)]
      else if c < 0x10000 then
        [byte_of (0xE0 + c div 4096), byte_of (0x80 + c div 64 mod 64),
         byte_of (0x80 + c mod 64)]
      else
        [byte_of (0xF0 + c div 262144), byte_of (0x80 + c div 4096 mod 64),
         byte_of (0x80 + c div 64 mod 64), byte_of (0x80 + c mod 64)])"

definition utf8_encode :: "py_str \<Rightarrow> byte list" where
  "utf8_encode s = concat (map utf8_encode_char s)"

lemma unat_byte: "n < 256 \<Longrightarrow> unat (byte_of n) = n"
  by (simp add: byte_of_def unat_of_nat)

lemma decode_2:
  assumes "0xC2 \<le> x" "x < 0xE0" "y < 64"
  shows "utf8_decode_from sp (byte_of x # byte_of (0x80 + y) # bs) =
           map_option ((#) ((x - 0xC0) * 64 + y)) (utf8_decode_from sp bs)"
proof -
  have u0: "unat (byte_of x) = x" using assms by (intro unat_byte) simp
  have u1: "unat (byte_of (0x80 + y)) = 0x80 + y" using assms by (intro unat_byte) simp
  show ?thesis using assms by (simp add: utf8_decode_from.simps Let_def u0 u1 is_cont_def)
qed

lemma decode_3:
  assumes "0xE0 \<le> x" "x < 0xF0" "y < 64" "z < 64" "0x800 \<le> (x - 0xE0) * 4096 + y * 64 + z"
  shows "utf8_decode_from True (byte_of x # byte_of (0x80 + y) # byte_of (0x80 + z) # bs) =
           map_option ((#) ((x - 0xE0) * 4096 + y * 64 + z)) (utf8_decode_from True bs)"
proof -
  have u0: "unat (byte_of x) = x" using assms by (intro unat_byte) simp
  have u1: "unat (byte_of (0x80 + y)) = 0x80 + y" using assms by (intro unat_byte) simp
  have u2: "unat (byte_of (0x80 + z)) = 0x80 + z" using assms by (intro unat_byte) simp
  show ?thesis using assms by (simp add: utf8_decode_from.simps Let_def u0 u1 u2 is_cont_def)
qed

lemma decode_4:
  assumes "0xF0 \<le> x" "x < 0xF5" "y < 64" "z < 64" "w < 64"
    "0x10000 \<le> (x - 0xF0) * 262144 + y * 4096 + z * 64 + w"
    "(x - 0xF0) * 262144 + y * 4096 + z * 64 + w < 0x110000"
  shows "utf8_decode_from sp
           (byte_of x # byte_of (0x80 + y) # byte_of (0x80 + z) # byte_of (0x80 + w) # bs) =
           map_option ((#) ((x - 0xF0) * 262144 + y * 4096 + z * 64 + w))
             (utf8_decode_from sp bs)"
proof -
  have u0: "unat (byte_of x) = x" using assms by (intro unat_byte) simp
  have u1: "unat (byte_of (0x80 + y)) = 0x80 + y" using assms by (intro unat_byte) simp
  have u2: "unat (byte_of (0x80 + z)) = 0x80 + z" using assms by (intro unat_byte) simp
  have u3: "unat (byte_of (0x80 + w)) = 0x80 + w" using assms by (intro unat_byte) simp
  show ?thesis using assms by (simp add: utf8_decode_from.simps Let_def u0 u1 u2 u3 is_cont_def)
qed

lemma split_64: "(q::nat) div 64 * (64 * k) + q mod 64 * k = q * k"
proof -
  have "q * k = (q div 64 * 64 + q mod 64) * k" by simp
  also have "\<dots> = q div 64 * (64 * k) + q mod 64 * k"
    by (simp only: distrib_right mult.assoc)
  finally show ?thesis by (rule sym)
qed

lemma split_64_3: "(c::nat) div 4096 * 4096 + c div 64 mod 64 * 64 + c mod 64 = c"
proof -
  have "c div 4096 = c div 64 div 64" by (simp add: div_mult2_eq)
  then have "c div 4096 * 4096 + c div 64 mod 64 * 64 = c div 64 * 64"
    using split_64 [of "c div 64" 64] by simp
  then show ?thesis by simp
qed

lemma split_64_4:
  "(c::nat) div 262144 * 262144 + c div 4096 mod 64 * 4096 + c div 64 mod 64 * 64 + c mod 64 = c"
proof -
  have "c div 262144 = c div 4096 div 64" by (simp add: div_mult2_eq)
  then have "c div 262144 * 262144 + c div 4096 mod 64 * 4096 = c div 4096 * 4096"
    using split_64 [of "c div 4096" 4096] by simp
  then have "c div 262144 * 262144 + c div 4096 mod 64 * 4096 + c div 64 mod 64 * 64 + c mod 64
                = c div 4096 * 4096 + c div 64 mod 64 * 64 + c mod 64" by simp
  then show ?thesis by (simp only: split_64_3)
qed

lemma utf8_char_roundtrip:
  assumes "c < 0x110000"
  shows "utf8_decode_from True (utf8_encode_char c @ bs) =
           map_option ((#) c) (utf8_decode_from True bs)"
proof -
  consider (a) "c < 0x80" | (b) "0x80 \<le> c" "c < 0x800" | (c) "0x800 \<le> c" "c < 0x10000"
    | (d) "0x10000 \<le> c" "c < 0x110000" using assms by linarith
  then show ?thesis
  proof cases
    case a
    then show ?thesis
      by (simp add: utf8_encode_char_def unat_byte utf8_decode_from.simps(2))
  next
    case b
    have enc: "utf8_encode_char c = [byte_of (0xC0 + c div 64), byte_of (0x80 + c mod 64)]"
      using b by (simp add: utf8_encode_char_def)
    have e: "(0xC0 + c div 64 - 0xC0) * 64 + c mod 64 = c" by simp
    have 1: "0xC2 \<le> 0xC0 + c div 64" using b(1) by simp
    have 2: "0xC0 + c div 64 < 0xE0" using b(2) by simp
    have 3: "c mod 64 < 64" by simp
    from decode_2 [OF 1 2 3] show ?thesis unfolding enc e by simp
  next
    case c
    have enc: "utf8_encode_char c =
                 [byte_of (0xE0 + c div 4096), byte_of (0x80 + c div 64 mod 64),
                  byte_of (0x80 + c mod 64)]"
      using c by (simp add: utf8_encode_char_def)
    have e: "(0xE0 + c div 4096 - 0xE0) * 4096 + c div 64 mod 64 * 64 + c mod 64 = c"
      using split_64_3 [of c] by simp
    have 1: "0xE0 \<le> 0xE0 + c div 4096" by simp
    have 2: "0xE0 + c div 4096 < 0xF0" using c(2) by simp
    have 3: "c div 64 mod 64 < 64" "c mod 64 < 64" by simp_all
    have 4: "0x800 \<le> (0xE0 + c div 4096 - 0xE0) * 4096 + c div 64 mod 64 * 64 + c mod 64"
      unfolding e using c(1) .
    from decode_3 [OF 1 2 3 4] show ?thesis unfolding enc e by simp
  next
    case d
    have enc: "utf8_encode_char c =
                 [byte_of (0xF0 + c div 262144), byte_of (0x80 + c div 4096 mod 64),
                  byte_of (0x80 + c div 64 mod 64), byte_of (0x80 + c mod 64)]"
      using d by (simp add: utf8_encode_char_def)
    have e: "(0xF0 + c div 262144 - 0xF0) * 262144 + c div 4096 mod 64 * 4096
               + c div 64 mod 64 * 64 + c mod 64 = c"
      using split_64_4 [of c] by simp
    have 1: "0xF0 \<le> 0xF0 + c div 262144" by simp
    have 2: "0xF0 + c div 262144 < 0xF5" using d(2) by simp
    have 3: "c div 4096 mod 64 < 64" "c div 64 mod 64 < 64" "c mod 64 < 64" by simp_all
    have 4: "0x10000 \<le> (0xF0 + c div 262144 - 0xF0) * 262144 + c div 4096 mod 64 * 4096
               + c div 64 mod 64 * 64 + c mod 64"
      unfolding e using d(1) .
    have 5: "(0xF0 + c div 262144 - 0xF0) * 262144 + c div 4096 mod 64 * 4096
               + c div 64 mod 64 * 64 + c mod 64 < 0x110000"
      unfolding e using d(2) .
    from decode_4 [OF 1 2 3 4 5] show ?thesis unfolding enc e by simp
  qed
qed

lemma utf8_roundtrip:
  "\<forall>c\<in>set s. c < 0x110000 \<Longrightarrow> utf8_decode_from True (utf8_encode s @ bs) = map_option ((@) s) (utf8_decode_from True bs)"
proof (induction s)
  case Nil
  show ?case by (simp add: utf8_encode_def option.map_ident)
next
  case (Cons c s)
  then have "utf8_decode_from True (utf8_encode s @ bs) = map_option ((@) s) (utf8_decode_from True bs)"
    and c: "c < 0x110000" by simp_all
  then have "utf8_decode_from True (utf8_encode (c # s) @ bs) =
             map_option ((#) c) (map_option ((@) s) (utf8_decode_from True bs))"
    using utf8_char_roundtrip [OF c, of "utf8_encode s @ bs"] by (simp add: utf8_encode_def)
  then show ?case by (simp add: option.map_comp comp_def)
qed

lemma utf8_bound_2: "x < 224 \<Longrightarrow> y < 192 \<Longrightarrow> (x - 192) * 64 + (y - 128) < (1114112::nat)"
  by arith

lemma utf8_decode_step:
  assumes "utf8_decode_from sp (b0 # bs) = Some s"
  shows "\<exists>c r s'. s = c # s' \<and> c < 0x110000 \<and> utf8_decode_from sp r = Some s'
            \<and> length r \<le> length bs"
proof -
  let ?x = "unat b0"
  consider (a) "?x < 0x80" | (b) "0xC2 \<le> ?x" "?x < 0xE0" | (c) "0xE0 \<le> ?x" "?x < 0xF0"
    | (d) "0xF0 \<le> ?x" "?x < 0xF5" | (e) "0x80 \<le> ?x" "?x < 0xC2" | (f) "0xF5 \<le> ?x"
    by linarith
  then show ?thesis
  proof cases
    case a
    with assms obtain s' where "utf8_decode_from sp bs = Some s'" "s = ?x # s'"
      by (auto simp: utf8_decode_from.simps(2) Let_def)
    with a show ?thesis by (intro exI [of _ ?x] exI [of _ bs] exI [of _ s']) simp
  next
    case b
    with assms obtain b1 r s' where bs: "bs = b1 # r" and c: "is_cont b1"
      and r: "utf8_decode_from sp r = Some s'"
      and s: "s = ((?x - 0xC0) * 64 + (unat b1 - 0x80)) # s'"
      by (auto simp: utf8_decode_from.simps(2) Let_def split: list.splits if_splits)
    from c b have "(?x - 0xC0) * 64 + (unat b1 - 0x80) < 0x110000"
      unfolding is_cont_def by arith
    with bs r s show ?thesis by auto
  next
    case c
    with assms obtain b1 b2 r s' where bs: "bs = b1 # b2 # r"
      and cc: "is_cont b1" "is_cont b2"
      and r: "utf8_decode_from sp r = Some s'"
      and s: "s = ((?x - 0xE0) * 4096 + (unat b1 - 0x80) * 64 + (unat b2 - 0x80)) # s'"
      by (auto simp: utf8_decode_from.simps(2) Let_def split: list.splits if_splits)
    from cc c have "(?x - 0xE0) * 4096 + (unat b1 - 0x80) * 64 + (unat b2 - 0x80) < 0x110000"
      unfolding is_cont_def by arith
    with bs r s show ?thesis by auto
  next
    case d
    with assms obtain b1 b2 b3 r s' where bs: "bs = b1 # b2 # b3 # r"
      and r: "utf8_decode_from sp r = Some s'"
      and lt: "(?x - 0xF0) * 262144 + (unat b1 - 0x80) * 4096
                      + (unat b2 - 0x80) * 64 + (unat b3 - 0x80) < 0x110000"
      and s: "s = ((?x - 0xF0) * 262144 + (unat b1 - 0x80) * 4096
                      + (unat b2 - 0x80) * 64 + (unat b3 - 0x80)) # s'"
      by (auto simp: utf8_decode_from.simps(2) Let_def split: list.splits if_splits)
    with bs show ?thesis by auto
  next
    case e
    with assms show ?thesis by (simp add: utf8_decode_from.simps(2) Let_def)
  next
    case f
    with assms show ?thesis by (simp add: utf8_decode_from.simps(2) Let_def)
  qed
qed

lemma utf8_decode_valid:
  "utf8_decode_from sp bs = Some s \<Longrightarrow> \<forall>c\<in>set s. c < 0x110000"
proof (induction "length bs" arbitrary: bs s rule: less_induct)
  case less
  show ?case
  proof (cases bs)
    case Nil
    with less.prems show ?thesis by (simp add: utf8_decode_from.simps(1))
  next
    case (Cons b0 bs')
    with less.prems obtain c r s' where s: "s = c # s'" and c: "c < 0x110000"
      and r: "utf8_decode_from sp r = Some s'" and l: "length r \<le> length bs'"
      using utf8_decode_step by blast
    from l Cons have "length r < length bs" by simp
    from less.hyps [OF this r] s c show ?thesis by simp
  qed
qed

subsection \<open>Integers\<close>

text \<open>
  Little-endian byte strings: \<open>le_bytes n x\<close> is \<open>x.to_bytes(n, 'little')\<close> for the low \<open>n\<close>
  bytes of a natural number and \<open>read_le\<close> is \<open>int.from_bytes(bs, 'little')\<close>;
  \<open>to_bytes_signed\<close> and \<open>from_bytes_signed\<close> are the same with \<open>signed=True\<close>, in two's
  complement.  \<open>encode_long\<close> and \<open>decode_long\<close> are the functions of these names in
  \<open>pickle\<close>: the shortest two's complement form of an integer, and the empty string for 0.
\<close>

fun le_bytes :: "nat \<Rightarrow> nat \<Rightarrow> byte list" where
  "le_bytes 0 x = []"
| "le_bytes (Suc n) x = byte_of (x mod 256) # le_bytes n (x div 256)"

fun read_le :: "byte list \<Rightarrow> nat" where
  "read_le [] = 0"
| "read_le (b # bs) = unat b + 256 * read_le bs"

definition to_bytes_signed :: "nat \<Rightarrow> int \<Rightarrow> byte list" where
  "to_bytes_signed n x = le_bytes n (nat (x mod 256 ^ n))"

definition from_bytes_signed :: "byte list \<Rightarrow> int" where
  "from_bytes_signed bs =
     (let u = int (read_le bs); m = 256 ^ length bs
      in if bs \<noteq> [] \<and> m \<le> 2 * u then u - m else u)"

function bit_length :: "nat \<Rightarrow> nat" where
  "bit_length n = (if n = 0 then 0 else Suc (bit_length (n div 2)))"
  by pat_completeness auto
termination
  by (relation "measure id") auto

declare bit_length.simps [simp del]

definition encode_long :: "int \<Rightarrow> byte list" where
  "encode_long x =
     (if x = 0 then []
      else let nbytes = bit_length (nat \<bar>x\<bar>) div 8 + 1;
               result = to_bytes_signed nbytes x
           in if x < 0 \<and> nbytes > 1 \<and> last result = 0xff
                 \<and> result ! (nbytes - 2) AND 0x80 \<noteq> 0
              then butlast result else result)"

definition decode_long :: "byte list \<Rightarrow> int" where
  "decode_long data = from_bytes_signed data"

lemma length_le_bytes [simp]: "length (le_bytes n x) = n"
  by (induction n arbitrary: x) simp_all

lemma read_le_bytes: "read_le (le_bytes n x) = x mod 256 ^ n"
proof (induction n arbitrary: x)
  case 0 show ?case by simp
next
  case (Suc n)
  have "x mod 256 + 256 * (x div 256 mod 256 ^ n) = x mod (256 * 256 ^ n)"
    by (simp add: mod_mult2_eq)
  with Suc show ?case by (simp add: unat_byte)
qed

lemma le_bytes_snoc:
  "le_bytes (Suc n) x = le_bytes n x @ [byte_of (x div 256 ^ n mod 256)]"
proof (induction n arbitrary: x)
  case 0 show ?case by simp
next
  case (Suc n)
  have "x div 256 div 256 ^ n = x div (256 * 256 ^ n)" by (simp add: div_mult2_eq)
  with Suc [of "x div 256"] show ?case by simp
qed

lemma signed_roundtrip:
  assumes "0 < n" "- (256 ^ n) \<le> 2 * x" "2 * x < 256 ^ n"
  shows "from_bytes_signed (to_bytes_signed n x) = x"
proof -
  let ?m = "256 ^ n :: int"
  have m: "0 < ?m" by simp
  have ne: "le_bytes n (nat (x mod ?m)) \<noteq> []" using assms(1) by (cases n) simp_all
  have "int (read_le (le_bytes n (nat (x mod ?m)))) = int (nat (x mod ?m) mod 256 ^ n)"
    by (simp add: read_le_bytes)
  also have "\<dots> = x mod ?m"
    using m by (simp add: nat_mod_distrib nat_power_eq)
  finally have u: "int (read_le (le_bytes n (nat (x mod ?m)))) = x mod ?m" .
  show ?thesis
  proof (cases "0 \<le> x")
    case True
    then have "x mod ?m = x" using assms(3) by simp
    with u ne True assms(3) show ?thesis
      by (simp add: from_bytes_signed_def to_bytes_signed_def Let_def)
  next
    case False
    then have "x mod ?m = x + ?m" using assms(2)
      by (smt (verit) m mod_add_self2 mod_pos_pos_trivial)
    with u ne False assms(2) show ?thesis
      by (simp add: from_bytes_signed_def to_bytes_signed_def Let_def)
  qed
qed

lemma bit_length_bound: "n < 2 ^ bit_length n"
proof (induction n rule: bit_length.induct)
  case (1 n)
  show ?case
  proof (cases "n = 0")
    case True then show ?thesis by (simp add: bit_length.simps)
  next
    case False
    with 1 have "n div 2 < 2 ^ bit_length (n div 2)" by simp
    then have "n < 2 * 2 ^ bit_length (n div 2)" by linarith
    with False show ?thesis by (subst bit_length.simps) simp
  qed
qed


lemma high_bit: "(b :: 8 word) AND 0x80 \<noteq> 0 \<Longrightarrow> 128 \<le> unat b"
proof -
  have e: "(0x80 :: 8 word) = 2 ^ 7" by simp
  assume "b AND 0x80 \<noteq> 0"
  then have "bit b 7" unfolding e and_exp_eq_0_iff_not_bit by simp
  then have "bit (unat b) 7" by (simp add: bit_unsigned_iff)
  then have o: "odd (unat b div 2 ^ 7)" unfolding bit_iff_odd .
  show ?thesis
  proof (cases "unat b < 128")
    case True
    then have "unat b div 2 ^ 7 = 0" by simp
    with o show ?thesis by simp
  next
    case False
    then show ?thesis by simp
  qed
qed

lemma from_le_bytes:
  assumes "0 < m" "- (256 ^ m) \<le> 2 * x" "2 * x < 256 ^ m"
      and u: "int u mod 256 ^ m = x mod 256 ^ m"
  shows "from_bytes_signed (le_bytes m u) = x"
proof -
  let ?m = "256 ^ m :: int"
  have m: "0 < ?m" by simp
  have ne: "le_bytes m u \<noteq> []" using assms(1) by (cases m) simp_all
  have "int (read_le (le_bytes m u)) = int (u mod 256 ^ m)" by (simp add: read_le_bytes)
  also have "\<dots> = int u mod ?m" by (simp add: zmod_int)
  finally have r: "int (read_le (le_bytes m u)) = x mod ?m" using u by simp
  show ?thesis
  proof (cases "0 \<le> x")
    case True
    then have "x mod ?m = x" using assms(3) by simp
    with r ne True assms(3) show ?thesis
      by (simp add: from_bytes_signed_def Let_def)
  next
    case False
    then have "x mod ?m = x + ?m" using assms(2)
      by (smt (verit) m mod_add_self2 mod_pos_pos_trivial)
    with r ne False assms(2) show ?thesis
      by (simp add: from_bytes_signed_def Let_def)
  qed
qed

lemma bit_length_pos: "0 < n \<Longrightarrow> 0 < bit_length n"
  by (subst bit_length.simps) simp

lemma pow256: "(256 :: int) ^ n = 2 ^ (8 * n)"
  by (simp add: power_mult)

lemma long_range:
  assumes "n = bit_length (nat \<bar>x\<bar>) div 8 + 1"
  shows "- (256 ^ n) \<le> 2 * x \<and> 2 * x < 256 ^ n"
proof -
  let ?b = "bit_length (nat \<bar>x\<bar>)"
  have "nat \<bar>x\<bar> < 2 ^ ?b" by (rule bit_length_bound)
  then have a: "\<bar>x\<bar> < 2 ^ ?b"
    by (metis nat_less_iff abs_ge_zero of_nat_numeral of_nat_power)
  have "Suc ?b \<le> 8 * n" using assms by simp
  then have "(2 :: int) ^ Suc ?b \<le> 2 ^ (8 * n)" by (rule power_increasing) simp
  then have "2 * (2 :: int) ^ ?b \<le> 256 ^ n" by (simp add: pow256)
  with a show ?thesis by linarith
qed

lemma byte_of_255: "v < 256 \<Longrightarrow> byte_of v = 0xff \<Longrightarrow> v = 255"
proof -
  assume v: "v < 256" and e: "byte_of v = 0xff"
  have "unat (byte_of v) = v" using v by (rule unat_byte)
  with e show ?thesis by simp
qed

lemma long_roundtrip: "decode_long (encode_long x) = x"
proof (cases "x = 0")
  case True
  then show ?thesis by (simp add: encode_long_def decode_long_def from_bytes_signed_def)
next
  case False
  define n where "n = bit_length (nat \<bar>x\<bar>) div 8 + 1"
  define u where "u = nat (x mod 256 ^ n)"
  have n: "0 < n" by (simp add: n_def)
  have rng: "- (256 ^ n) \<le> 2 * x" "2 * x < 256 ^ n" using long_range [OF n_def] by auto
  have um: "int u = x mod 256 ^ n" by (simp add: u_def)
  have full: "from_bytes_signed (le_bytes n u) = x"
    using n rng by (rule from_le_bytes) (simp add: um)
  show ?thesis
  proof (cases "x < 0 \<and> n > 1 \<and> last (le_bytes n u) = 0xff
                 \<and> le_bytes n u ! (n - 2) AND 0x80 \<noteq> 0")
    case False
    with \<open>x \<noteq> 0\<close> have "encode_long x = le_bytes n u"
      unfolding encode_long_def Let_def to_bytes_signed_def n_def [symmetric] u_def [symmetric]
      by auto
    with full show ?thesis by (simp add: decode_long_def)
  next
    case True
    then obtain k where k: "n = Suc (Suc k)" by (cases n; cases "n - 1") auto
    let ?A = "256 ^ k :: nat"
    let ?b1 = "byte_of (u div 256 ^ k mod 256)"
    let ?b2 = "byte_of (u div 256 ^ Suc k mod 256)"
    have le: "le_bytes n u = le_bytes (Suc k) u @ [?b2]" unfolding k by (rule le_bytes_snoc)
    have le1: "le_bytes (Suc k) u = le_bytes k u @ [?b1]" by (rule le_bytes_snoc)
    have bl: "butlast (le_bytes n u) = le_bytes (Suc k) u" unfolding le by simp
    have le2: "le_bytes n u = le_bytes k u @ [?b1, ?b2]" unfolding le le1 by simp
    have "n - 2 = k" unfolding k by simp
    then have "le_bytes n u ! (n - 2) = (le_bytes k u @ [?b1, ?b2]) ! k"
      unfolding le2 by (rule arg_cong)
    also have "\<dots> = ?b1" by (simp add: nth_append)
    finally have nb: "le_bytes n u ! (n - 2) = ?b1" .
    have b1: "?b1 AND 0x80 \<noteq> 0" using True unfolding nb by blast
    have b2: "?b2 = 0xff" using True unfolding le by simp
    have h1: "128 \<le> u div ?A mod 256"
      using high_bit [OF b1] by (simp add: unat_byte)
    have h2: "u div (256 * ?A) mod 256 = 255"
      using byte_of_255 [OF _ b2] by simp
    have "u div ?A = 256 * (u div ?A div 256) + u div ?A mod 256" by simp
    also have "u div ?A div 256 = u div (256 * ?A)"
      using div_mult2_eq [of u ?A 256] by (simp only: mult.commute)
    finally have d: "u div ?A = 256 * (u div (256 * ?A)) + u div ?A mod 256" .
    have "255 \<le> u div (256 * ?A)" using h2 by (metis mod_less_eq_dividend)
    with d h1 have "256 * 255 + 128 \<le> u div ?A" by linarith
    then have "(256 * 255 + 128) * ?A \<le> u div ?A * ?A" by (rule mult_le_mono1)
    also have "\<dots> \<le> u" by simp
    finally have lo: "65408 * ?A \<le> u" by simp
    have xm: "x mod 256 ^ n = x + 256 ^ n"
      using True rng(1) by (smt (verit) mod_add_self2 mod_pos_pos_trivial zero_less_power)
    have "int u = x + 65536 * 256 ^ k" using um xm unfolding k by simp
    moreover have "int (65408 * ?A) \<le> int u" using lo by (simp only: of_nat_le_iff)
    ultimately have "65408 * (256 :: int) ^ k \<le> x + 65536 * 256 ^ k" by simp
    then have r1: "- (256 ^ Suc k) \<le> 2 * x" by simp
    have r2: "2 * x < 256 ^ Suc k" using True by (smt (verit) zero_less_power)
    have "(256 :: int) ^ Suc k dvd 256 ^ n" unfolding k by simp
    then have "int u mod 256 ^ Suc k = x mod 256 ^ Suc k"
      unfolding um by (rule mod_mod_cancel)
    with r1 r2 have "from_bytes_signed (le_bytes (Suc k) u) = x"
      by (intro from_le_bytes) simp_all
    moreover from True \<open>x \<noteq> 0\<close> have "encode_long x = butlast (le_bytes n u)"
      unfolding encode_long_def Let_def to_bytes_signed_def n_def [symmetric] u_def [symmetric]
      by auto
    ultimately show ?thesis by (simp add: decode_long_def bl)
  qed
qed

section \<open>pickle, protocol 2\<close>

text \<open>
  \<open>pickle.dump(mapping, fo, protocol=2)\<close> and \<open>pickle.load(fo)\<close>, as the accelerated
  implementation that \<open>pickle\<close> imports (the module \<open>_pickle\<close>) performs them, restricted to
  what the service hands to them: integers, strings and dictionaries.

  The opcodes of the format that occur for such values.
\<close>

definition MARK :: byte where "MARK = 0x28"
definition STOP :: byte where "STOP = 0x2e"
definition BININT :: byte where "BININT = 0x4a"
definition BININT1 :: byte where "BININT1 = 0x4b"
definition BININT2 :: byte where "BININT2 = 0x4d"
definition BINUNICODE :: byte where "BINUNICODE = 0x58"
definition BINPUT :: byte where "BINPUT = 0x71"
definition LONG_BINPUT :: byte where "LONG_BINPUT = 0x72"
definition SETITEM :: byte where "SETITEM = 0x73"
definition SETITEMS :: byte where "SETITEMS = 0x75"
definition EMPTY_DICT :: byte where "EMPTY_DICT = 0x7d"
definition PROTO :: byte where "PROTO = 0x80"
definition LONG1 :: byte where "LONG1 = 0x8a"
definition LONG4 :: byte where "LONG4 = 0x8b"

definition BATCHSIZE :: nat where "BATCHSIZE = 1000"

subsection \<open>The pickler\<close>

text \<open>
  The pickler keeps a memo of the objects it has written, by identity, and writes the
  index of each string and dictionary after it (\<open>memo_put\<close>).  An object met a second time
  would be written as a reference to the memo; in the record that \<open>_load_strings_mapping\<close>
  builds no object occurs twice (the keys of a dictionary are different strings, the
  digest is a fresh string, the literals \<open>'strings'\<close> and \<open>'md5'\<close> are objects of the
  module), so the memo is modelled by its size alone.

  A string is a list of code points below \<open>0x110000\<close>; \<open>utf8_encode\<close> is applied to such
  strings only.
\<close>

definition put :: "nat \<Rightarrow> pyexc + byte list" where
  "put idx =
     (if idx < 256 then Inr [BINPUT, byte_of idx]
      else if idx \<le> 0xffffffff then Inr (LONG_BINPUT # le_bytes 4 idx)
      else Inl PicklingError)"

definition save_long :: "int \<Rightarrow> pyexc + byte list" where
  "save_long obj =
     (if 0 \<le> obj \<and> obj \<le> 0xff then Inr [BININT1, byte_of (nat obj)]
      else if 0 \<le> obj \<and> obj \<le> 0xffff then Inr (BININT2 # le_bytes 2 (nat obj))
      else if - 0x80000000 \<le> obj \<and> obj \<le> 0x7fffffff
      then Inr (BININT # to_bytes_signed 4 obj)
      else if 0x7fffffff < bit_length (nat \<bar>obj\<bar>) div 8 + 1 then Inl OverflowError
      else (let encoded = encode_long obj; n = length encoded
            in if n < 256 then Inr (LONG1 # byte_of n # encoded)
               else Inr (LONG4 # to_bytes_signed 4 (int n) @ encoded)))"

definition save_str :: "py_str \<Rightarrow> nat \<Rightarrow> pyexc + byte list \<times> nat" where
  "save_str obj memo =
     (let encoded = utf8_encode obj; n = length encoded
      in if n \<le> 0xffffffff
         then (case put memo of
                 Inl e \<Rightarrow> Inl e
               | Inr p \<Rightarrow> Inr (BINUNICODE # le_bytes 4 n @ encoded @ p, Suc memo))
         else Inl OverflowError)"

text \<open>
  \<open>save\<close> writes one object; its second argument and second result are the size of the
  memo.  A dictionary is written as \<open>EMPTY_DICT\<close> and its items: one item as key, value,
  \<open>SETITEM\<close>; more items in batches \<open>MARK\<close> ... \<open>SETITEMS\<close>, a batch being closed after
  \<open>BATCHSIZE\<close> items and when the items are exhausted.  \<open>batch_dict\<close> is the loop over the
  items; it is entered after a \<open>MARK\<close> and counts the items of the open batch.
\<close>

function (sequential) save :: "pyval \<Rightarrow> nat \<Rightarrow> pyexc + byte list \<times> nat"
and batch_dict :: "(pyval \<times> pyval) list \<Rightarrow> nat \<Rightarrow> nat \<Rightarrow> pyexc + byte list \<times> nat" where
  "save (PyInt i) memo = (case save_long i of Inl e \<Rightarrow> Inl e | Inr bs \<Rightarrow> Inr (bs, memo))"
| "save (PyStr s) memo = save_str s memo"
| "save (PyDict []) memo =
     (case put memo of Inl e \<Rightarrow> Inl e | Inr p \<Rightarrow> Inr (EMPTY_DICT # p, Suc memo))"
| "save (PyDict [(k, v)]) memo =
     (case put memo of
        Inl e \<Rightarrow> Inl e
      | Inr p \<Rightarrow>
          (case save k (Suc memo) of
             Inl e \<Rightarrow> Inl e
           | Inr (bk, memo1) \<Rightarrow>
               (case save v memo1 of
                  Inl e \<Rightarrow> Inl e
                | Inr (bv, memo2) \<Rightarrow> Inr (EMPTY_DICT # p @ bk @ bv @ [SETITEM], memo2))))"
| "save (PyDict (x # y # items)) memo =
     (case put memo of
        Inl e \<Rightarrow> Inl e
      | Inr p \<Rightarrow>
          (case batch_dict (x # y # items) 0 (Suc memo) of
             Inl e \<Rightarrow> Inl e
           | Inr (bs, memo1) \<Rightarrow> Inr (EMPTY_DICT # p @ [MARK] @ bs, memo1)))"
| "batch_dict [] i memo = Inr ([SETITEMS], memo)"
| "batch_dict ((k, v) # items) i memo =
     (case save k memo of
        Inl e \<Rightarrow> Inl e
      | Inr (bk, memo1) \<Rightarrow>
          (case save v memo1 of
             Inl e \<Rightarrow> Inl e
           | Inr (bv, memo2) \<Rightarrow>
               if Suc i = BATCHSIZE
               then (case batch_dict items 0 memo2 of
                       Inl e \<Rightarrow> Inl e
                     | Inr (bs, memo3) \<Rightarrow> Inr (bk @ bv @ [SETITEMS, MARK] @ bs, memo3))
               else (case batch_dict items (Suc i) memo2 of
                       Inl e \<Rightarrow> Inl e
                     | Inr (bs, memo3) \<Rightarrow> Inr (bk @ bv @ bs, memo3))))"
  by pat_completeness auto
termination
  by (relation "measure (\<lambda>x. case x of
                   Inl (obj, memo) \<Rightarrow> 2 * size obj
                 | Inr (items, i, memo) \<Rightarrow> 2 * size_list (size_prod size size) items + 1)")
     auto

definition pickle_dumps :: "pyval \<Rightarrow> pyexc + byte list" where
  "pickle_dumps obj =
     (case save obj 0 of
        Inl e \<Rightarrow> Inl e
      | Inr (bs, memo) \<Rightarrow> Inr ([PROTO, 2] @ bs @ [STOP]))"

subsection \<open>The unpickler\<close>

text \<open>
  The unpickler is a stack machine.  \<open>stack\<close> holds the objects above the last mark, the
  top first, and \<open>metastack\<close> the parts of the stack below each open mark.  The memo is
  only written by the opcodes modelled here, never read, so it is not kept.  Opcodes
  other than those above are outside the model.

  Running out of data inside an argument raises \<open>UnpicklingError\<close>, and at the place of
  an opcode \<open>EOFError\<close>.  An opcode that finds too few objects above the last mark
  raises \<open>UnpicklingError\<close>.
\<close>

fun hashable :: "pyval \<Rightarrow> bool" where
  "hashable (PyDict items) = False"
| "hashable v = True"

fun py_setitem :: "pyval \<Rightarrow> pyval \<Rightarrow> pyval \<Rightarrow> pyexc + pyval" where
  "py_setitem (PyDict items) k v =
     (if hashable k then Inr (PyDict (AList.update k v items)) else Inl TypeError)"
| "py_setitem obj k v = Inl TypeError"

fun setitems :: "pyval \<Rightarrow> pyval list \<Rightarrow> pyexc + pyval" where
  "setitems d (k # v # kvs) =
     (case py_setitem d k v of Inl e \<Rightarrow> Inl e | Inr d' \<Rightarrow> setitems d' kvs)"
| "setitems d kvs = Inr d"

definition load_op ::
  "byte \<Rightarrow> byte list \<Rightarrow> pyval list \<Rightarrow> pyval list list \<Rightarrow>
   pyexc + byte list \<times> pyval list \<times> pyval list list" where
  "load_op op rest stack metastack =
     (if op = PROTO then
        (case rest of
           [] \<Rightarrow> Inl UnpicklingError
         | v # rest' \<Rightarrow> if 5 < unat v then Inl ValueError else Inr (rest', stack, metastack))
      else if op = EMPTY_DICT then Inr (rest, PyDict [] # stack, metastack)
      else if op = BINPUT then
        (case rest of
           [] \<Rightarrow> Inl UnpicklingError
         | i # rest' \<Rightarrow>
             if stack = [] then Inl UnpicklingError else Inr (rest', stack, metastack))
      else if op = LONG_BINPUT then
        (if length rest < 4 then Inl UnpicklingError
         else if stack = [] then Inl UnpicklingError
         else Inr (drop 4 rest, stack, metastack))
      else if op = MARK then Inr (rest, [], stack # metastack)
      else if op = BINUNICODE then
        (if length rest < 4 then Inl UnpicklingError
         else (let n = read_le (take 4 rest); rest' = drop 4 rest
               in if length rest' < n then Inl UnpicklingError
                  else (case utf8_decode_from True (take n rest') of
                          None \<Rightarrow> Inl UnicodeDecodeError
                        | Some s \<Rightarrow> Inr (drop n rest', PyStr s # stack, metastack))))
      else if op = BININT1 then
        (case rest of
           [] \<Rightarrow> Inl UnpicklingError
         | b # rest' \<Rightarrow> Inr (rest', PyInt (int (unat b)) # stack, metastack))
      else if op = BININT2 then
        (if length rest < 2 then Inl UnpicklingError
         else Inr (drop 2 rest, PyInt (int (read_le (take 2 rest))) # stack, metastack))
      else if op = BININT then
        (if length rest < 4 then Inl UnpicklingError
         else Inr (drop 4 rest, PyInt (from_bytes_signed (take 4 rest)) # stack, metastack))
      else if op = LONG1 then
        (case rest of
           [] \<Rightarrow> Inl UnpicklingError
         | b # rest' \<Rightarrow>
             (let n = unat b
              in if length rest' < n then Inl UnpicklingError
                 else Inr (drop n rest', PyInt (decode_long (take n rest')) # stack, metastack)))
      else if op = LONG4 then
        (if length rest < 4 then Inl UnpicklingError
         else (let n = from_bytes_signed (take 4 rest); rest' = drop 4 rest
               in if n < 0 then Inl UnpicklingError
                  else if length rest' < nat n then Inl UnpicklingError
                  else Inr (drop (nat n) rest',
                            PyInt (decode_long (take (nat n) rest')) # stack, metastack)))
      else if op = SETITEM then
        (case stack of
           v # k # d # stack' \<Rightarrow>
             (case py_setitem d k v of
                Inl e \<Rightarrow> Inl e
              | Inr d' \<Rightarrow> Inr (rest, d' # stack', metastack))
         | _ \<Rightarrow> Inl UnpicklingError)
      else if op = SETITEMS then
        (case metastack of
           [] \<Rightarrow> Inl UnpicklingError
         | below # metastack' \<Rightarrow>
             (case below of
                [] \<Rightarrow> Inl UnpicklingError
              | d # stack' \<Rightarrow>
                  if stack = [] then Inr (rest, d # stack', metastack')
                  else if odd (length stack) then Inl UnpicklingError
                  else (case setitems d (rev stack) of
                          Inl e \<Rightarrow> Inl e
                        | Inr d' \<Rightarrow> Inr (rest, d' # stack', metastack'))))
      else Inl OutsideModel)"

lemma load_op_length:
  "load_op op rest stack metastack = Inr (rest', stack', metastack') \<Longrightarrow>
   length rest' \<le> length rest"
  unfolding load_op_def
  by (auto simp: Let_def split: if_splits list.splits option.splits sum.splits)

function load_from :: "byte list \<Rightarrow> pyval list \<Rightarrow> pyval list list \<Rightarrow> pyexc + pyval" where
  "load_from [] stack metastack = Inl EOFError"
| "load_from (op # rest) stack metastack =
     (if op = STOP
      then (case stack of [] \<Rightarrow> Inl UnpicklingError | v # stack' \<Rightarrow> Inr v)
      else (case load_op op rest stack metastack of
              Inl e \<Rightarrow> Inl e
            | Inr (rest', stack', metastack') \<Rightarrow> load_from rest' stack' metastack'))"
  by pat_completeness auto
termination
proof (relation "measure (\<lambda>(bs, stack, metastack). length bs)", goal_cases)
  case 1 show ?case by simp
next
  case (2 op rest stack metastack x2 rest' y stack' metastack')
  then have "load_op op rest stack metastack = Inr (rest', stack', metastack')" by simp
  from load_op_length [OF this] show ?case by simp
qed

declare load_from.simps [simp del]

definition pickle_load :: "byte list \<Rightarrow> pyexc + pyval" where
  "pickle_load bs = load_from bs [] []"

subsection \<open>What is written is read back\<close>

lemmas opcode_defs =
  MARK_def STOP_def BININT_def BININT1_def BININT2_def BINUNICODE_def BINPUT_def
  LONG_BINPUT_def SETITEM_def SETITEMS_def EMPTY_DICT_def PROTO_def LONG1_def LONG4_def

lemma load_from_step:
  "op \<noteq> STOP \<Longrightarrow> load_op op rest stack ms = Inr (rest', stack', ms') \<Longrightarrow>
   load_from (op # rest) stack ms = load_from rest' stack' ms'"
  by (simp add: load_from.simps)

lemma load_BINPUT:
  "stack \<noteq> [] \<Longrightarrow> load_from (BINPUT # b # rest) stack ms = load_from rest stack ms"
  by (rule load_from_step) (simp_all add: load_op_def opcode_defs)

lemma load_LONG_BINPUT:
  "stack \<noteq> [] \<Longrightarrow> length arg = 4 \<Longrightarrow>
   load_from (LONG_BINPUT # arg @ rest) stack ms = load_from rest stack ms"
  by (rule load_from_step) (simp_all add: load_op_def opcode_defs)

lemma load_put:
  "put memo = Inr p \<Longrightarrow> stack \<noteq> [] \<Longrightarrow>
   load_from (p @ rest) stack ms = load_from rest stack ms"
  by (auto simp: put_def load_BINPUT load_LONG_BINPUT split: if_splits)

lemma load_EMPTY_DICT:
  "load_from (EMPTY_DICT # rest) stack ms = load_from rest (PyDict [] # stack) ms"
  by (rule load_from_step) (simp_all add: load_op_def opcode_defs)

lemma load_MARK:
  "load_from (MARK # rest) stack ms = load_from rest [] (stack # ms)"
  by (rule load_from_step) (simp_all add: load_op_def opcode_defs)

lemma load_BININT1:
  "load_from (BININT1 # b # rest) stack ms = load_from rest (PyInt (int (unat b)) # stack) ms"
  by (rule load_from_step) (simp_all add: load_op_def opcode_defs)

lemma load_BININT2:
  "length arg = 2 \<Longrightarrow>
   load_from (BININT2 # arg @ rest) stack ms =
   load_from rest (PyInt (int (read_le arg)) # stack) ms"
  by (rule load_from_step) (simp_all add: load_op_def opcode_defs)

lemma load_BININT:
  "length arg = 4 \<Longrightarrow>
   load_from (BININT # arg @ rest) stack ms =
   load_from rest (PyInt (from_bytes_signed arg) # stack) ms"
  by (rule load_from_step) (simp_all add: load_op_def opcode_defs)

lemma load_LONG1:
  "unat b = length arg \<Longrightarrow>
   load_from (LONG1 # b # arg @ rest) stack ms =
   load_from rest (PyInt (decode_long arg) # stack) ms"
  by (rule load_from_step) (simp_all add: load_op_def opcode_defs)

lemma load_LONG4:
  "length n = 4 \<Longrightarrow> from_bytes_signed n = int (length arg) \<Longrightarrow>
   load_from (LONG4 # n @ arg @ rest) stack ms =
   load_from rest (PyInt (decode_long arg) # stack) ms"
  by (rule load_from_step) (simp_all add: load_op_def opcode_defs)

lemma load_BINUNICODE:
  "length n = 4 \<Longrightarrow> read_le n = length arg \<Longrightarrow> utf8_decode_from True arg = Some s \<Longrightarrow>
   load_from (BINUNICODE # n @ arg @ rest) stack ms = load_from rest (PyStr s # stack) ms"
  by (rule load_from_step) (simp_all add: load_op_def opcode_defs)

lemma load_SETITEM:
  "py_setitem d k v = Inr d' \<Longrightarrow>
   load_from (SETITEM # rest) (v # k # d # stack) ms = load_from rest (d' # stack) ms"
  by (rule load_from_step) (simp_all add: load_op_def opcode_defs)

lemma load_SETITEMS:
  "even (length stack) \<Longrightarrow> setitems d (rev stack) = Inr d' \<Longrightarrow>
   load_from (SETITEMS # rest) stack ((d # below) # ms) = load_from rest (d' # below) ms"
proof (cases "stack = []")
  case True
  assume "setitems d (rev stack) = Inr d'"
  with True have "d' = d" by simp
  with True show ?thesis
    by (intro load_from_step) (simp_all add: load_op_def opcode_defs)
next
  case False
  assume "even (length stack)" "setitems d (rev stack) = Inr d'"
  with False show ?thesis
    by (intro load_from_step) (simp_all add: load_op_def opcode_defs)
qed

lemma load_STOP: "load_from (STOP # rest) (v # stack) ms = Inr v"
  by (simp add: load_from.simps)

lemma load_PROTO: "load_from (PROTO # 2 # rest) stack ms = load_from rest stack ms"
  by (rule load_from_step) (simp_all add: load_op_def opcode_defs)

lemma read_le_small: "x < 256 ^ n \<Longrightarrow> read_le (le_bytes n x) = x"
  by (simp add: read_le_bytes)

lemma from_bytes_signed_nat:
  assumes "0 < n" "2 * int x < 256 ^ n"
  shows "from_bytes_signed (to_bytes_signed n (int x)) = int x"
  using assms by (intro signed_roundtrip) simp_all

lemma length_to_bytes_signed [simp]: "length (to_bytes_signed n x) = n"
  by (simp add: to_bytes_signed_def)

lemma load_save_long:
  assumes "save_long i = Inr bs"
  shows "load_from (bs @ rest) stack ms = load_from rest (PyInt i # stack) ms"
proof -
  consider (a) "0 \<le> i" "i \<le> 0xff"
    | (b) "0 \<le> i" "0xff < i" "i \<le> 0xffff"
    | (c) "\<not> (0 \<le> i \<and> i \<le> 0xffff)" "- 0x80000000 \<le> i" "i \<le> 0x7fffffff"
    | (d) "\<not> (- 0x80000000 \<le> i \<and> i \<le> 0x7fffffff)" by linarith
  then show ?thesis
  proof cases
    case a
    then have bs: "bs = [BININT1, byte_of (nat i)]" using assms by (simp add: save_long_def)
    have "unat (byte_of (nat i)) = nat i" using a by (intro unat_byte) simp
    then show ?thesis unfolding bs using a by (simp add: load_BININT1)
  next
    case b
    then have bs: "bs = BININT2 # le_bytes 2 (nat i)" using assms by (simp add: save_long_def)
    have "read_le (le_bytes 2 (nat i)) = nat i" using b by (intro read_le_small) simp
    then show ?thesis unfolding bs using b by (simp add: load_BININT2)
  next
    case c
    then have bs: "bs = BININT # to_bytes_signed 4 i" using assms
      by (auto simp: save_long_def split: if_splits)
    have "from_bytes_signed (to_bytes_signed 4 i) = i" using c by (intro signed_roundtrip) simp_all
    then show ?thesis unfolding bs by (simp add: load_BININT)
  next
    case d
    let ?e = "encode_long i"
    from d assms have
      bs: "bs = (if length ?e < 256 then LONG1 # byte_of (length ?e) # ?e
                 else LONG4 # to_bytes_signed 4 (int (length ?e)) @ ?e)"
      and small: "bit_length (nat \<bar>i\<bar>) div 8 + 1 \<le> 0x7fffffff"
      by (auto simp: save_long_def Let_def split: if_splits)
    have "length ?e \<le> bit_length (nat \<bar>i\<bar>) div 8 + 1"
      by (simp add: encode_long_def Let_def)
    with small have len: "length ?e \<le> 0x7fffffff" by linarith
    show ?thesis
    proof (cases "length ?e < 256")
      case True
      then have "unat (byte_of (length ?e)) = length ?e" by (rule unat_byte)
      with True show ?thesis unfolding bs by (simp add: load_LONG1 long_roundtrip)
    next
      case False
      have "from_bytes_signed (to_bytes_signed 4 (int (length ?e))) = int (length ?e)"
        using len by (intro from_bytes_signed_nat) simp_all
      with False show ?thesis unfolding bs by (simp add: load_LONG4 long_roundtrip)
    qed
  qed
qed

lemma utf8_decode_encode:
  "\<forall>c\<in>set s. c < 0x110000 \<Longrightarrow> utf8_decode_from True (utf8_encode s) = Some s"
  using utf8_roundtrip [of s "[]"] by (simp add: utf8_decode_from.simps)

lemma load_save_str:
  assumes "\<forall>c\<in>set s. c < 0x110000" "save_str s memo = Inr (bs, memo')"
  shows "load_from (bs @ rest) stack ms = load_from rest (PyStr s # stack) ms"
proof -
  let ?e = "utf8_encode s"
  from assms(2) obtain p where n: "length ?e \<le> 0xffffffff" and p: "put memo = Inr p"
    and bs: "bs = BINUNICODE # le_bytes 4 (length ?e) @ ?e @ p"
    by (auto simp: save_str_def Let_def split: if_splits sum.splits)
  have r: "read_le (le_bytes 4 (length ?e)) = length ?e" using n by (intro read_le_small) simp
  have "load_from (bs @ rest) stack ms = load_from (p @ rest) (PyStr s # stack) ms"
    unfolding bs using load_BINUNICODE [OF _ r utf8_decode_encode [OF assms(1)], of "p @ rest"]
    by simp
  also have "\<dots> = load_from rest (PyStr s # stack) ms" using p by (rule load_put) simp
  finally show ?thesis .
qed

text \<open>
  The values a Python program can hold: the code points of a string are below
  \<open>0x110000\<close>, and the keys of a dictionary are hashable and different from each other.
\<close>

function (sequential) wf_val :: "pyval \<Rightarrow> bool"
and wf_items :: "(pyval \<times> pyval) list \<Rightarrow> bool" where
  "wf_val (PyInt i) = True"
| "wf_val (PyStr s) = (\<forall>c\<in>set s. c < 0x110000)"
| "wf_val (PyDict items) = (distinct (map fst items) \<and> wf_items items)"
| "wf_items [] = True"
| "wf_items ((k, v) # items) = (hashable k \<and> wf_val k \<and> wf_val v \<and> wf_items items)"
  by pat_completeness auto
termination
  by (relation "measure (\<lambda>x. case x of
                   Inl obj \<Rightarrow> 2 * size obj
                 | Inr items \<Rightarrow> 2 * size_list (size_prod size size) items + 1)")
     auto

definition flat :: "(pyval \<times> pyval) list \<Rightarrow> pyval list" where
  "flat ps = concat (map (\<lambda>(k, v). [k, v]) ps)"

definition dict_updates ::
  "(pyval \<times> pyval) list \<Rightarrow> (pyval \<times> pyval) list \<Rightarrow> (pyval \<times> pyval) list" where
  "dict_updates d ps = foldl (\<lambda>d (k, v). AList.update k v d) d ps"

lemma flat_simps [simp]:
  "flat [] = []" "flat ((k, v) # ps) = k # v # flat ps" "flat (ps @ qs) = flat ps @ flat qs"
  by (simp_all add: flat_def)

lemma even_length_flat [simp]: "even (length (flat ps))"
  by (induction ps) auto

lemma dict_updates_simps [simp]:
  "dict_updates d [] = d"
  "dict_updates d ((k, v) # ps) = dict_updates (AList.update k v d) ps"
  "dict_updates d (ps @ qs) = dict_updates (dict_updates d ps) qs"
  by (simp_all add: dict_updates_def)

lemma setitems_flat:
  "list_all (\<lambda>p. hashable (fst p)) ps \<Longrightarrow>
   setitems (PyDict d) (flat ps) = Inr (PyDict (dict_updates d ps))"
  by (induction ps arbitrary: d) auto

lemma wf_items_hashable: "wf_items items \<Longrightarrow> list_all (\<lambda>p. hashable (fst p)) items"
  by (induction items) auto

lemma update_new: "k \<notin> fst ` set d \<Longrightarrow> AList.update k v d = d @ [(k, v)]"
  by (induction d) auto

lemma dict_updates_distinct:
  "distinct (map fst (d @ items)) \<Longrightarrow> dict_updates d items = d @ items"
proof (induction items arbitrary: d)
  case Nil show ?case by simp
next
  case (Cons p items)
  obtain k v where p: "p = (k, v)" by (cases p)
  from Cons.prems have "k \<notin> fst ` set d" unfolding p by auto
  then have u: "AList.update k v d = d @ [(k, v)]" by (rule update_new)
  from Cons.prems have "distinct (map fst ((d @ [(k, v)]) @ items))" unfolding p by simp
  from Cons.IH [OF this] show ?case unfolding p by (simp add: u)
qed

lemma load_save:
  "wf_val obj \<Longrightarrow> save obj memo = Inr (bs, memo') \<Longrightarrow>
   load_from (bs @ rest) stack ms = load_from rest (obj # stack) ms"
  and load_batch_dict:
  "wf_items items \<Longrightarrow> batch_dict items i memo = Inr (bs, memo') \<Longrightarrow>
   list_all (\<lambda>p. hashable (fst p)) pend \<Longrightarrow>
   load_from (bs @ rest) (rev (flat pend)) ((PyDict d # below) # ms) =
   load_from rest (PyDict (dict_updates d (pend @ items)) # below) ms"
proof (induction obj memo and items i memo
       arbitrary: bs memo' rest stack ms and bs memo' rest pend d below ms
       rule: save_batch_dict.induct)
  case (1 i memo)
  then have "save_long i = Inr bs" by (simp split: sum.splits)
  then show ?case by (rule load_save_long)
next
  case (2 s memo)
  then show ?case by (simp add: load_save_str)
next
  case (3 memo)
  then obtain p where p: "put memo = Inr p" and bs: "bs = EMPTY_DICT # p"
    by (auto split: sum.splits)
  show ?case unfolding bs using load_put [OF p, of "PyDict [] # stack" rest ms]
    by (simp add: load_EMPTY_DICT)
next
  case (4 k v memo)
  from "4.prems"(2) obtain p bk memo1 bv where p: "put memo = Inr p"
    and k: "save k (Suc memo) = Inr (bk, memo1)" and v: "save v memo1 = Inr (bv, memo')"
    and bs: "bs = EMPTY_DICT # p @ bk @ bv @ [SETITEM]"
    by (auto split: sum.splits prod.splits)
  from "4.prems"(1) have wk: "wf_val k" and wv: "wf_val v" and hk: "hashable k" by simp_all
  have K: "\<And>rest stack ms. load_from (bk @ rest) stack ms = load_from rest (k # stack) ms"
    using "4.IH"(1) [OF p wk k] .
  have V: "\<And>rest stack ms. load_from (bv @ rest) stack ms = load_from rest (v # stack) ms"
    using "4.IH"(2) [OF p k refl wv v] .
  have "load_from (bs @ rest) stack ms
          = load_from (p @ bk @ bv @ SETITEM # rest) (PyDict [] # stack) ms"
    unfolding bs by (simp add: load_EMPTY_DICT)
  also have "\<dots> = load_from (bk @ bv @ SETITEM # rest) (PyDict [] # stack) ms"
    using p by (rule load_put) simp
  also have "\<dots> = load_from (SETITEM # rest) (v # k # PyDict [] # stack) ms"
    by (simp only: K V)
  also have "\<dots> = load_from rest (PyDict [(k, v)] # stack) ms"
    using hk by (intro load_SETITEM) simp
  finally show ?case .
next
  case (5 x y items memo)
  from "5.prems"(2) obtain p bs' where p: "put memo = Inr p"
    and b: "batch_dict (x # y # items) 0 (Suc memo) = Inr (bs', memo')"
    and bs: "bs = EMPTY_DICT # p @ [MARK] @ bs'"
    by (auto split: sum.splits prod.splits)
  from "5.prems"(1) have wi: "wf_items (x # y # items)"
    and di: "distinct (map fst (x # y # items))" by simp_all
  have B: "load_from (bs' @ rest) (rev (flat [])) ((PyDict [] # stack) # ms) =
           load_from rest (PyDict (dict_updates [] ([] @ x # y # items)) # stack) ms"
    using "5.IH" [OF p wi b, of "[]" rest "[]" stack ms] by simp
  have D: "dict_updates [] (x # y # items) = x # y # items"
    using dict_updates_distinct [of "[]" "x # y # items"] di by simp
  have "load_from (bs @ rest) stack ms
          = load_from (p @ MARK # bs' @ rest) (PyDict [] # stack) ms"
    unfolding bs by (simp add: load_EMPTY_DICT)
  also have "\<dots> = load_from (MARK # bs' @ rest) (PyDict [] # stack) ms"
    using p by (rule load_put) simp
  also have "\<dots> = load_from (bs' @ rest) [] ((PyDict [] # stack) # ms)"
    by (rule load_MARK)
  also have "\<dots> = load_from rest (PyDict (x # y # items) # stack) ms"
    using B D by simp
  finally show ?case .
next
  case (6 i memo)
  then have bs: "bs = [SETITEMS]" by simp
  have "setitems (PyDict d) (rev (rev (flat pend))) = Inr (PyDict (dict_updates d pend))"
    using setitems_flat [OF "6.prems"(3)] by simp
  then have "load_from (SETITEMS # rest) (rev (flat pend)) ((PyDict d # below) # ms) =
             load_from rest (PyDict (dict_updates d pend) # below) ms"
    by (intro load_SETITEMS) simp_all
  then show ?case unfolding bs by simp
next
  case (7 k v items i memo)
  from "7.prems"(2) obtain bk memo1 bv memo2 bs' where
    k: "save k memo = Inr (bk, memo1)" and v: "save v memo1 = Inr (bv, memo2)"
    and b: "batch_dict items (if Suc i = BATCHSIZE then 0 else Suc i) memo2 = Inr (bs', memo')"
    and bs: "bs = bk @ bv @ (if Suc i = BATCHSIZE then [SETITEMS, MARK] else []) @ bs'"
    by (auto split: sum.splits prod.splits if_splits)
  from "7.prems"(1) have wk: "wf_val k" and wv: "wf_val v" and hk: "hashable k"
    and wi: "wf_items items" by simp_all
  have K: "\<And>rest stack ms. load_from (bk @ rest) stack ms = load_from rest (k # stack) ms"
    using "7.IH"(1) [OF wk k] .
  have V: "\<And>rest stack ms. load_from (bv @ rest) stack ms = load_from rest (v # stack) ms"
    using "7.IH"(2) [OF k refl wv v] .
  let ?pend = "pend @ [(k, v)]"
  have hp: "list_all (\<lambda>p. hashable (fst p)) ?pend" using "7.prems"(3) hk by simp
  have st: "v # k # rev (flat pend) = rev (flat ?pend)" by simp
  have kv: "\<And>tail. load_from (bk @ bv @ tail) (rev (flat pend)) ((PyDict d # below) # ms) =
          load_from tail (rev (flat ?pend)) ((PyDict d # below) # ms)"
    unfolding st [symmetric] by (simp only: K V)
  show ?case
  proof (cases "Suc i = BATCHSIZE")
    case True
    with b have b0: "batch_dict items 0 memo2 = Inr (bs', memo')" by simp
    have B: "load_from (bs' @ rest) (rev (flat []))
               ((PyDict (dict_updates d ?pend) # below) # ms) =
             load_from rest (PyDict (dict_updates (dict_updates d ?pend) ([] @ items)) # below) ms"
      using "7.IH"(3) [OF k refl v refl True wi b0, of "[]" rest "dict_updates d ?pend" below ms] by simp
    have S: "setitems (PyDict d) (rev (rev (flat ?pend))) = Inr (PyDict (dict_updates d ?pend))"
      using setitems_flat [OF hp] by simp
    have "load_from (bs @ rest) (rev (flat pend)) ((PyDict d # below) # ms)
            = load_from (SETITEMS # MARK # bs' @ rest) (rev (flat ?pend))
                ((PyDict d # below) # ms)"
      unfolding bs using True kv [of "SETITEMS # MARK # bs' @ rest"] by simp
    also have "\<dots> = load_from (MARK # bs' @ rest) (PyDict (dict_updates d ?pend) # below) ms"
      using S by (intro load_SETITEMS) simp_all
    also have "\<dots> = load_from (bs' @ rest) [] ((PyDict (dict_updates d ?pend) # below) # ms)"
      by (rule load_MARK)
    also have "\<dots> = load_from rest (PyDict (dict_updates d (pend @ (k, v) # items)) # below) ms"
      using B by simp
    finally show ?thesis .
  next
    case False
    with b have b1: "batch_dict items (Suc i) memo2 = Inr (bs', memo')" by simp
    have B: "load_from (bs' @ rest) (rev (flat ?pend)) ((PyDict d # below) # ms) =
             load_from rest (PyDict (dict_updates d (?pend @ items)) # below) ms"
      using "7.IH"(4) [OF k refl v refl False wi b1 hp] .
    have "load_from (bs @ rest) (rev (flat pend)) ((PyDict d # below) # ms)
            = load_from (bs' @ rest) (rev (flat ?pend)) ((PyDict d # below) # ms)"
      unfolding bs using False kv [of "bs' @ rest"] by simp
    also have "\<dots> = load_from rest (PyDict (dict_updates d (pend @ (k, v) # items)) # below) ms"
      using B by simp
    finally show ?thesis .
  qed
qed

lemma pickle_load_dumps:
  assumes "wf_val obj" "pickle_dumps obj = Inr bs"
  shows "pickle_load (bs @ trailing) = Inr obj"
proof -
  from assms(2) obtain bs' memo where s: "save obj 0 = Inr (bs', memo)"
    and bs: "bs = [PROTO, 2] @ bs' @ [STOP]"
    by (auto simp: pickle_dumps_def split: sum.splits prod.splits)
  have "pickle_load (bs @ trailing) = load_from (bs' @ STOP # trailing) [] []"
    unfolding bs pickle_load_def by (simp add: load_PROTO)
  also have "\<dots> = load_from (STOP # trailing) [obj] []"
    using assms(1) s by (rule load_save)
  also have "\<dots> = Inr obj" by (rule load_STOP)
  finally show ?thesis .
qed

text \<open>
  What the format of protocol 2 can hold: a string of at most \<open>0xffffffff\<close> bytes in
  UTF-8, an integer of at most \<open>0x7fffffff\<close> bytes, and at most \<open>2 ^ 32\<close> memoized objects
  (every string and every dictionary is one).
\<close>

function (sequential) fits :: "pyval \<Rightarrow> bool"
and fits_items :: "(pyval \<times> pyval) list \<Rightarrow> bool" where
  "fits (PyInt i) = (bit_length (nat \<bar>i\<bar>) div 8 + 1 \<le> 0x7fffffff)"
| "fits (PyStr s) = (length (utf8_encode s) \<le> 0xffffffff)"
| "fits (PyDict items) = fits_items items"
| "fits_items [] = True"
| "fits_items ((k, v) # items) = (fits k \<and> fits v \<and> fits_items items)"
  by pat_completeness auto
termination
  by (relation "measure (\<lambda>x. case x of
                   Inl obj \<Rightarrow> 2 * size obj
                 | Inr items \<Rightarrow> 2 * size_list (size_prod size size) items + 1)")
     auto

function (sequential) memo_count :: "pyval \<Rightarrow> nat"
and memo_count_items :: "(pyval \<times> pyval) list \<Rightarrow> nat" where
  "memo_count (PyInt i) = 0"
| "memo_count (PyStr s) = 1"
| "memo_count (PyDict items) = 1 + memo_count_items items"
| "memo_count_items [] = 0"
| "memo_count_items ((k, v) # items) = memo_count k + memo_count v + memo_count_items items"
  by pat_completeness auto
termination
  by (relation "measure (\<lambda>x. case x of
                   Inl obj \<Rightarrow> 2 * size obj
                 | Inr items \<Rightarrow> 2 * size_list (size_prod size size) items + 1)")
     auto

lemma put_ok: "memo < 2 ^ 32 \<Longrightarrow> \<exists>p. put memo = Inr p"
  by (simp add: put_def)

lemma save_long_ok:
  "bit_length (nat \<bar>i\<bar>) div 8 + 1 \<le> 0x7fffffff \<Longrightarrow> \<exists>bs. save_long i = Inr bs"
  by (simp add: save_long_def Let_def)

lemma save_ok:
  "fits obj \<Longrightarrow> memo + memo_count obj \<le> 2 ^ 32 \<Longrightarrow>
   \<exists>bs. save obj memo = Inr (bs, memo + memo_count obj)"
  and batch_dict_ok:
  "fits_items items \<Longrightarrow> memo + memo_count_items items \<le> 2 ^ 32 \<Longrightarrow>
   \<exists>bs. batch_dict items i memo = Inr (bs, memo + memo_count_items items)"
proof (induction obj memo and items i memo rule: save_batch_dict.induct)
  case (1 i memo)
  then obtain bs where "save_long i = Inr bs" using save_long_ok by auto
  then show ?case by simp
next
  case (2 s memo)
  then have "memo < 2 ^ 32" by simp
  from put_ok [OF this] obtain p where "put memo = Inr p" ..
  with 2 show ?case by (simp add: save_str_def Let_def)
next
  case (3 memo)
  then have "memo < 2 ^ 32" by simp
  from put_ok [OF this] obtain p where "put memo = Inr p" ..
  then show ?case by simp
next
  case (4 k v memo)
  from "4.prems" have m: "memo < 2 ^ 32" by simp
  from put_ok [OF this] obtain p where p: "put memo = Inr p" ..
  from "4.prems" have fk: "fits k" and fv: "fits v"
    and c1: "Suc memo + memo_count k \<le> 2 ^ 32"
    and c2: "Suc memo + memo_count k + memo_count v \<le> 2 ^ 32" by simp_all
  from "4.IH"(1) [OF p fk c1] obtain bk where
    k: "save k (Suc memo) = Inr (bk, Suc memo + memo_count k)" ..
  from "4.IH"(2) [OF p k refl fv c2] obtain bv where
    v: "save v (Suc memo + memo_count k) = Inr (bv, Suc memo + memo_count k + memo_count v)" ..
  show ?case using p k v by simp
next
  case (5 x y items memo)
  from "5.prems" have m: "memo < 2 ^ 32" by simp
  from put_ok [OF this] obtain p where p: "put memo = Inr p" ..
  from "5.prems" have f: "fits_items (x # y # items)"
    and c: "Suc memo + memo_count_items (x # y # items) \<le> 2 ^ 32" by simp_all
  from "5.IH" [OF p f c] obtain bs where
    "batch_dict (x # y # items) 0 (Suc memo)
       = Inr (bs, Suc memo + memo_count_items (x # y # items))" ..
  with p show ?case by simp
next
  case (6 i memo)
  show ?case by simp
next
  case (7 k v items i memo)
  from "7.prems" have fk: "fits k" and fv: "fits v" and fi: "fits_items items"
    and c1: "memo + memo_count k \<le> 2 ^ 32"
    and c2: "memo + memo_count k + memo_count v \<le> 2 ^ 32"
    and c3: "memo + memo_count k + memo_count v + memo_count_items items \<le> 2 ^ 32"
    by simp_all
  from "7.IH"(1) [OF fk c1] obtain bk where
    k: "save k memo = Inr (bk, memo + memo_count k)" ..
  from "7.IH"(2) [OF k refl fv c2] obtain bv where
    v: "save v (memo + memo_count k) = Inr (bv, memo + memo_count k + memo_count v)" ..
  show ?case
  proof (cases "Suc i = BATCHSIZE")
    case True
    from "7.IH"(3) [OF k refl v refl True fi c3] obtain bs where
      "batch_dict items 0 (memo + memo_count k + memo_count v)
         = Inr (bs, memo + memo_count k + memo_count v + memo_count_items items)" ..
    with k v True show ?thesis by (simp add: add.assoc)
  next
    case False
    from "7.IH"(4) [OF k refl v refl False fi c3] obtain bs where
      "batch_dict items (Suc i) (memo + memo_count k + memo_count v)
         = Inr (bs, memo + memo_count k + memo_count v + memo_count_items items)" ..
    with k v False show ?thesis by (simp add: add.assoc)
  qed
qed

lemma pickle_dumps_ok:
  "fits obj \<Longrightarrow> memo_count obj \<le> 2 ^ 32 \<Longrightarrow> \<exists>bs. pickle_dumps obj = Inr bs"
  using save_ok [of obj 0] by (auto simp: pickle_dumps_def)

section \<open>kodi_service.py: loading the mapping\<close>

text \<open>
  The files the service touches: the English catalog \<open>strings.po\<close> in the add-on directory,
  which it only reads, and \<open>strings-map.pickle\<close> in the profile directory.  A file is its
  content, or \<open>None\<close> when the path does not exist.  \<open>map_writes\<close> counts how often the
  service has opened \<open>strings-map.pickle\<close> for writing.  A path that exists can be opened,
  and the profile directory exists (the module creates it when it is imported); other
  failures of the file system are outside the model.
\<close>

record files =
  strings_po :: "byte list option"
  strings_map :: "byte list option"
  map_writes :: nat

text \<open>
  \<open>hashlib.md5(strings_po).hexdigest()\<close>: the hash function \<open>md5\<close> is a parameter, from the
  bytes of the catalog to the bytes of the digest; \<open>hexdigest\<close> writes each byte as two
  lowercase hexadecimal digits.
\<close>

definition hex_digit :: "nat \<Rightarrow> nat" where
  "hex_digit n = (if n < 10 then 48 + n else 87 + n)"

definition hexdigest :: "byte list \<Rightarrow> py_str" where
  "hexdigest digest = concat (map (\<lambda>b. [hex_digit (unat b div 16), hex_digit (unat b mod 16)]) digest)"

definition utf8_decode :: "byte list \<Rightarrow> pyexc + py_str" where
  "utf8_decode bs =
     (case utf8_decode_from False bs of None \<Rightarrow> Inl UnicodeDecodeError | Some s \<Rightarrow> Inr s)"

text \<open>The dictionary \<open>{'strings': strings_mapping, 'md5': strings_po_md5}\<close>.\<close>

definition cache_record :: "(py_str \<times> int) list \<Rightarrow> py_str \<Rightarrow> pyval" where
  "cache_record strings_mapping strings_po_md5 =
     PyDict [(PyStr (ascii ''strings''), strings_dict strings_mapping),
             (PyStr (ascii ''md5''), PyStr strings_po_md5)]"

text \<open>
  \<open>_load_strings_mapping\<close>.  \<open>attempt\<close> is the body of the \<open>try\<close>: it gives the mapping read
  from the cache file, or the exception raised on the way.  Only an instance of \<open>IOError\<close>
  reaches the handler, which parses the catalog and writes the cache file; any other
  exception leaves the method.  Opening the cache file for writing empties it, and
  \<open>pickle.dump\<close> writes the file only when it has pickled the whole record.
\<close>

definition load_strings_mapping ::
  "(byte list \<Rightarrow> byte list) \<Rightarrow> files \<Rightarrow> (pyexc + pyval) \<times> files" where
  "load_strings_mapping md5 w =
     (case strings_po w of
        None \<Rightarrow> (Inl FileNotFoundError, w)
      | Some po \<Rightarrow>
          (let strings_po_md5 = hexdigest (md5 po);
               attempt =
                 (case strings_map w of
                    None \<Rightarrow> Inl FileNotFoundError
                  | Some data \<Rightarrow>
                      (case pickle_load data of
                         Inl e \<Rightarrow> Inl e
                       | Inr mapping \<Rightarrow>
                           (case py_getitem mapping (ascii ''md5'') of
                              Inl e \<Rightarrow> Inl e
                            | Inr stored \<Rightarrow>
                                if stored \<noteq> PyStr strings_po_md5
                                then Inl (IOError (ascii ''English strings.po has been updated''))
                                else Inr mapping)))
           in case attempt of
                Inr mapping \<Rightarrow> (py_getitem mapping (ascii ''strings''), w)
              | Inl e \<Rightarrow>
                  if isinstance_IOError e
                  then (case utf8_decode po of
                          Inl e' \<Rightarrow> (Inl e', w)
                        | Inr text \<Rightarrow>
                            (case parse_strings_po text of
                               Inl e' \<Rightarrow> (Inl e', w)
                             | Inr strings_mapping \<Rightarrow>
                                 (let mapping = cache_record strings_mapping strings_po_md5
                                  in case pickle_dumps mapping of
                                       Inl e' \<Rightarrow>
                                         (Inl e', w\<lparr>strings_map := Some [],
                                                    map_writes := Suc (map_writes w)\<rparr>)
                                     | Inr data \<Rightarrow>
                                         (py_getitem mapping (ascii ''strings''),
                                          w\<lparr>strings_map := Some data,
                                            map_writes := Suc (map_writes w)\<rparr>))))
                  else (Inl e, w)))"

text \<open>\<open>LocalizationService.__init__\<close>; its result is \<open>self._mapping\<close>.\<close>

definition LocalizationService_init ::
  "(byte list \<Rightarrow> byte list) \<Rightarrow> files \<Rightarrow> (pyexc + pyval) \<times> files" where
  "LocalizationService_init md5 w =
     (if strings_po w = None
      then (Inl (LocalizationError (ascii ''Missing English strings.po localization file'')), w)
      else load_strings_mapping md5 w)"

text \<open>A stand-in for the hash function, for running the service on examples.\<close>

definition demo_md5 :: "byte list \<Rightarrow> byte list" where
  "demo_md5 bs = [foldl (+) 0 bs, of_nat (length bs)]"

subsection \<open>Properties of loading\<close>








text \<open>
  Claim C6.  When the English catalog does not exist, \<open>LocalizationService()\<close> raises
  \<open>LocalizationError\<close> with the message \<open>Missing English strings.po localization file\<close>,
  and the files are as they were: the cache file has not been opened for writing and
  holds what it held.
\<close>

theorem init_missing_catalog:
  "strings_po w = None \<Longrightarrow>
   LocalizationService_init md5 w =
     (Inl (LocalizationError (ascii ''Missing English strings.po localization file'')), w)"
  by (simp add: LocalizationService_init_def)

theorem init_missing_catalog_witness:
  "LocalizationService_init demo_md5 \<lparr>strings_po = None, strings_map = Some [1, 2, 3], map_writes = 0\<rparr> =
     (Inl (LocalizationError (ascii ''Missing English strings.po localization file'')),
      \<lparr>strings_po = None, strings_map = Some [1, 2, 3], map_writes = 0\<rparr>)
   \<and> LocalizationService_init demo_md5 \<lparr>strings_po = None, strings_map = None, map_writes = 0\<rparr> =
     (Inl (LocalizationError (ascii ''Missing English strings.po localization file'')),
      \<lparr>strings_po = None, strings_map = None, map_writes = 0\<rparr>)"
  using init_missing_catalog
          [of "\<lparr>strings_po = None, strings_map = Some [1, 2, 3], map_writes = 0\<rparr>" demo_md5]
        init_missing_catalog
          [of "\<lparr>strings_po = None, strings_map = None, map_writes = 0\<rparr>" demo_md5]
  by simp





end
